theory Spec2Isabelle
  imports Complex_Main
begin

section \<open>Python values, errors and the random source\<close>

text \<open>
  The generators under \<^verbatim>\<open>data/python_scripts\<close> are modelled function by function.
  Python's \<^verbatim>\<open>int\<close> is \<^typ>\<open>int\<close>, \<^verbatim>\<open>Decimal\<close> is \<^typ>\<open>rat\<close>, a \<^verbatim>\<open>datetime\<close> is its
  number of seconds (\<^typ>\<open>int\<close>), and \<^verbatim>\<open>float\<close> is idealised as \<^typ>\<open>real\<close>: rounding,
  infinities and NaN are outside the model. A \<^verbatim>\<open>dict\<close> is the list of its items in
  insertion order; a raised exception is the left injection of a sum.
\<close>

datatype error =
    ValueError string
  | KeyError string
  | IndexError
  | StopIteration

text \<open>
  \<^verbatim>\<open>random.Random\<close> belongs to the standard library, so the generator is a parameter: a
  state type \<open>'g\<close> with the three operations the scripts call. Each draw returns the
  value and the next state.
\<close>

record 'g rng =
  rng_seed :: "int \<Rightarrow> 'g"
  rng_random :: "'g \<Rightarrow> real \<times> 'g"
  rng_randint :: "int \<Rightarrow> int \<Rightarrow> 'g \<Rightarrow> int \<times> 'g"

text \<open>
  A scripted generator for evaluating the model on concrete inputs: the state holds the
  values that \<^verbatim>\<open>random()\<close> and \<^verbatim>\<open>randint\<close> will return next.
\<close>

definition scripted_rng :: "(real list \<times> int list) rng" where
  "scripted_rng =
     \<lparr> rng_seed = (\<lambda>seed. ([], [])),
       rng_random = (\<lambda>(rs, ns). case rs of [] \<Rightarrow> (0, ([], ns)) | r # rs' \<Rightarrow> (r, (rs', ns))),
       rng_randint = (\<lambda>a b (rs, ns). case ns of [] \<Rightarrow> (a, (rs, [])) | n # ns' \<Rightarrow> (n, (rs, ns'))) \<rparr>"

subsection \<open>\<^verbatim>\<open>itertools.accumulate\<close>, \<^verbatim>\<open>bisect.bisect\<close> and \<^verbatim>\<open>Random.choices\<close>\<close>

fun accumulate_from :: "real \<Rightarrow> real list \<Rightarrow> real list" where
  "accumulate_from acc [] = []"
| "accumulate_from acc (w # ws) = (acc + w) # accumulate_from (acc + w) ws"

fun accumulate :: "real list \<Rightarrow> real list" where
  "accumulate [] = []"
| "accumulate (w # ws) = w # accumulate_from w ws"

text \<open>\<^verbatim>\<open>bisect_right(a, x, lo, hi)\<close>: the binary search itself, so that its result is
  also defined on a list that is not sorted.\<close>

function bisect :: "real list \<Rightarrow> real \<Rightarrow> nat \<Rightarrow> nat \<Rightarrow> nat" where
  "bisect a x lo hi =
     (if lo < hi then
        (let mid = (lo + hi) div 2 in
         if x < a ! mid then bisect a x lo mid else bisect a x (mid + 1) hi)
      else lo)"
  by pat_completeness auto
termination
  by (relation "measure (\<lambda>(a, x, lo, hi). hi - lo)") auto

declare bisect.simps [simp del]

text \<open>
  \<^verbatim>\<open>rng.choices(population, weights=weights, k=1)[0]\<close> as CPython 3.9 and later define
  it: cumulative weights, a \<^verbatim>\<open>ValueError\<close> when their last entry is not positive, then
  one \<^verbatim>\<open>random()\<close> scaled by the total and located by \<^verbatim>\<open>bisect\<close> with \<^verbatim>\<open>hi = n - 1\<close>.
  An empty population fails at \<^verbatim>\<open>cum_weights[-1]\<close>.
\<close>

definition choices :: "'g rng \<Rightarrow> 'a list \<Rightarrow> real list \<Rightarrow> 'g \<Rightarrow> error + ('a \<times> 'g)" where
  "choices R population weights g =
     (let n = length population; cum_weights = accumulate weights in
      if length cum_weights \<noteq> n then
        Inl (ValueError ''The number of weights does not match the population'')
      else if cum_weights = [] then Inl IndexError
      else
        (let total = last cum_weights in
         if total \<le> 0 then Inl (ValueError ''Total of weights must be greater than zero'')
         else
           (case rng_random R g of
              (r, g') \<Rightarrow> Inr (population ! bisect cum_weights (r * total) 0 (n - 1), g'))))"

section \<open>The weighted distribution engine\<close>

text \<open>\<^verbatim>\<open>normalize_distribution\<close> (insert_payments.py, lines 24-35).\<close>

definition normalize_distribution :: "('k \<times> real) list \<Rightarrow> error + ('k \<times> real) list" where
  "normalize_distribution distr =
     (if distr = [] then Inl (ValueError ''Distribution is empty.'')
      else if list_ex (\<lambda>v. v < 0) (map snd distr) then
        Inl (ValueError ''Distribution weights cannot be negative.'')
      else
        (let total = sum_list (map snd distr) in
         if total \<le> 0 then Inl (ValueError ''Distribution must have positive weights.'')
         else Inr (map (\<lambda>(k, v). (k, v / total)) distr)))"

text \<open>\<^verbatim>\<open>weighted_choice_key\<close> (insert_payments.py, lines 37-45).\<close>

definition weighted_choice_key :: "'g rng \<Rightarrow> ('k \<times> real) list \<Rightarrow> 'g \<Rightarrow> error + ('k \<times> 'g)" where
  "weighted_choice_key R weights g =
     (if weights = [] then Inl (ValueError ''Empty weights.'')
      else choices R (map fst weights) (map snd weights) g)"

text \<open>
  \<^verbatim>\<open>sample_unique_products_weighted\<close> (insert_order_items.py, lines 168-205). The
  \<^verbatim>\<open>for _ in range(k)\<close> loop is a recursion on the number of rounds left; the pool and its
  weights are the two local arrays, \<^verbatim>\<open>chosen\<close> the result so far. Each round draws an
  index, swaps it with the last position and pops both arrays.
\<close>

fun sample_loop ::
  "'g rng \<Rightarrow> nat \<Rightarrow> int list \<Rightarrow> real list \<Rightarrow> int list \<Rightarrow> 'g \<Rightarrow> error + (int list \<times> 'g)" where
  "sample_loop R 0 pool weights chosen g = Inr (chosen, g)"
| "sample_loop R (Suc rounds) pool weights chosen g =
     (case choices R [0..<length pool] weights g of
        Inl e \<Rightarrow> Inl e
      | Inr (idx, g') \<Rightarrow>
          (let chosen' = chosen @ [pool ! idx];
               last_index = length pool - 1;
               pool' = butlast (pool[idx := pool ! last_index, last_index := pool ! idx]);
               weights' =
                 butlast (weights[idx := weights ! last_index, last_index := weights ! idx])
           in if weights' \<noteq> [] \<and> sum_list weights' \<le> 0 then Inr (chosen', g')
              else sample_loop R rounds pool' weights' chosen' g'))"

definition sample_unique_products_weighted ::
  "'g rng \<Rightarrow> int list \<Rightarrow> (int \<rightharpoonup> real) \<Rightarrow> int \<Rightarrow> 'g \<Rightarrow> error + (int list \<times> 'g)" where
  "sample_unique_products_weighted R candidate_ids weights_map k g =
     (if k \<le> 0 \<or> candidate_ids = [] then Inr ([], g)
      else
        (let pool = candidate_ids;
             weights = map (\<lambda>pid. case weights_map pid of None \<Rightarrow> 1 | Some w \<Rightarrow> w) pool;
             k' = min k (int (length pool))
         in sample_loop R (nat k') pool weights [] g))"

section \<open>The batch persistence buffer\<close>

text \<open>
  \<^verbatim>\<open>insert_payments_in_batches\<close> (insert_payments.py, lines 252-279). The connection is
  the list of the units passed to \<^verbatim>\<open>executemany\<close> and committed so far, oldest first;
  the database is taken to accept every unit.
\<close>

record 'r batch_state =
  b_total :: int
  b_batches :: int
  b_buf :: "'r list"
  b_conn :: "'r list list"

definition flush :: "'r batch_state \<Rightarrow> 'r batch_state" where
  "flush s =
     \<lparr> b_total = b_total s + int (length (b_buf s)),
       b_batches = b_batches s + 1,
       b_buf = [],
       b_conn = b_conn s @ [b_buf s] \<rparr>"

fun insert_loop :: "int \<Rightarrow> 'r list \<Rightarrow> 'r batch_state \<Rightarrow> 'r batch_state" where
  "insert_loop batch_size [] s = s"
| "insert_loop batch_size (r # rows) s =
     (let s1 = s\<lparr>b_buf := b_buf s @ [r]\<rparr> in
      if batch_size \<noteq> 0 \<and> int (length (b_buf s1)) \<ge> batch_size
      then insert_loop batch_size rows (flush s1)
      else insert_loop batch_size rows s1)"

definition insert_payments_in_batches ::
  "'r list list \<Rightarrow> 'r list \<Rightarrow> int \<Rightarrow> (int \<times> int) \<times> 'r list list" where
  "insert_payments_in_batches conn rows batch_size =
     (if rows = [] then ((0, 0), conn)
      else
        (let s = insert_loop batch_size rows
                   \<lparr>b_total = 0, b_batches = 0, b_buf = [], b_conn = conn\<rparr>;
             s' = (if b_buf s \<noteq> [] then flush s else s)
         in ((b_total s', b_batches s'), b_conn s')))"

section \<open>The payment attempt simulator\<close>

subsection \<open>Configuration (insert_payments.py, lines 60-84)\<close>

definition MAX_GLOBAL_ATTEMPTS :: int where
  "MAX_GLOBAL_ATTEMPTS = 4"

definition GLOBAL_ATTEMPT_DIST :: "(int \<times> real) list" where
  "GLOBAL_ATTEMPT_DIST = [(1, 45), (2, 32), (3, 18), (4, 5)]"

definition GLOBAL_ATTEMPT_WEIGHTS :: "error + (int \<times> real) list" where
  "GLOBAL_ATTEMPT_WEIGHTS = normalize_distribution GLOBAL_ATTEMPT_DIST"

definition PAYMENT_WINDOW_SECONDS :: int where
  "PAYMENT_WINDOW_SECONDS = 48 * 60 * 60"

text \<open>Every entry of \<^verbatim>\<open>PAYMENT_METHOD_CONFIG\<close> has the same four keys, so an entry is a
  record and the defaults of \<^verbatim>\<open>cfg.get(key, default)\<close> are never taken.\<close>

record method_cfg =
  weight :: real
  max_attempts :: int
  stay_with_method_prob :: real
  success_rate :: real

definition PAYMENT_METHOD_CONFIG :: "(string \<times> method_cfg) list" where
  "PAYMENT_METHOD_CONFIG =
     [(''card'', \<lparr>weight = 0.58, max_attempts = 3, stay_with_method_prob = 0.68,
                 success_rate = 0.62\<rparr>),
      (''paypal'', \<lparr>weight = 0.18, max_attempts = 3, stay_with_method_prob = 0.55,
                   success_rate = 0.56\<rparr>),
      (''mbway'', \<lparr>weight = 0.18, max_attempts = 3, stay_with_method_prob = 0.60,
                  success_rate = 0.50\<rparr>),
      (''bank_transfer'', \<lparr>weight = 0.06, max_attempts = 2, stay_with_method_prob = 0.35,
                          success_rate = 0.35\<rparr>)]"

definition BATCH_SIZE :: int where
  "BATCH_SIZE = 20000"

subsection \<open>Data (lines 98-103, 247-250)\<close>

record OrderInfo =
  order_id :: int
  order_date :: int
  order_status :: int
  order_total :: rat

text \<open>A row of \<^verbatim>\<open>payments\<close>: the six-tuple the script appends, with the column names of
  \<^verbatim>\<open>SQL_INSERT_PAYMENT\<close>.\<close>

record payment_row =
  row_order_id :: int
  row_attempt_no :: int
  row_payment_date :: int
  row_amount_paid :: rat
  row_payment_method_id :: int
  row_payment_status_id :: int

subsection \<open>Generation logic (lines 184-241)\<close>

definition dict_get :: "('k \<rightharpoonup> 'v) \<Rightarrow> 'k \<Rightarrow> 'v \<Rightarrow> 'v" where
  "dict_get d k dflt = (case d k of None \<Rightarrow> dflt | Some v \<Rightarrow> v)"

definition build_method_weights :: "(string \<times> real) list" where
  "build_method_weights = map (\<lambda>(m, cfg). (m, weight cfg)) PAYMENT_METHOD_CONFIG"

definition available_methods_by_cap :: "(string \<rightharpoonup> int) \<Rightarrow> string list" where
  "available_methods_by_cap method_counts =
     map fst
       (filter (\<lambda>(method, cfg).
          dict_get method_counts method 0 < min (max_attempts cfg) MAX_GLOBAL_ATTEMPTS)
        PAYMENT_METHOD_CONFIG)"

text \<open>The comprehension \<^verbatim>\<open>{m: float(PAYMENT_METHOD_CONFIG[m].get("weight", 0.0)) for m in
  available}\<close> of lines 220 and 338; a method that is no key of the configuration raises
  \<^verbatim>\<open>KeyError\<close>.\<close>

fun weights_of :: "string list \<Rightarrow> error + (string \<times> real) list" where
  "weights_of [] = Inr []"
| "weights_of (m # ms) =
     (case map_of PAYMENT_METHOD_CONFIG m of
        None \<Rightarrow> Inl (KeyError m)
      | Some cfg \<Rightarrow>
          (case weights_of ms of Inl e \<Rightarrow> Inl e | Inr ws \<Rightarrow> Inr ((m, weight cfg) # ws)))"

definition pick_next_method ::
  "'g rng \<Rightarrow> string \<Rightarrow> (string \<rightharpoonup> int) \<Rightarrow> 'g \<Rightarrow> error + (string \<times> 'g)" where
  "pick_next_method R current method_counts g =
     (let cfg = map_of PAYMENT_METHOD_CONFIG current;
          stay_prob = (case cfg of None \<Rightarrow> 1 | Some c \<Rightarrow> stay_with_method_prob c);
          max_curr = (case cfg of None \<Rightarrow> MAX_GLOBAL_ATTEMPTS | Some c \<Rightarrow> max_attempts c);
          stay_g =
            (if dict_get method_counts current 0 \<ge> min max_curr MAX_GLOBAL_ATTEMPTS
             then (False, g)
             else (fst (rng_random R g) \<le> stay_prob, snd (rng_random R g)))
      in if fst stay_g then Inr (current, snd stay_g)
         else
           (let available = remove1 current (available_methods_by_cap method_counts) in
            if available = [] then Inr (current, snd stay_g)
            else
              (case weights_of available of
                 Inl e \<Rightarrow> Inl e
               | Inr weights \<Rightarrow> weighted_choice_key R weights (snd stay_g))))"

text \<open>
  The \<^verbatim>\<open>while\<close> loop of \<^verbatim>\<open>sorted_attempt_times\<close> (lines 232-234) runs until the set holds
  \<^verbatim>\<open>n_attempts\<close> distinct offsets; with a generator that repeats itself it never ends, so
  it is a partial function and \<open>None\<close> stands for a run that does not return. The set
  \<^verbatim>\<open>chosen\<close> is a list without repetitions (\<^const>\<open>List.insert\<close> adds a new element only).
\<close>

partial_function (option) fill_chosen ::
  "'g rng \<Rightarrow> int \<Rightarrow> int \<Rightarrow> int list \<Rightarrow> 'g \<Rightarrow> (int list \<times> 'g) option" where
  "fill_chosen R n_attempts max_seconds chosen g =
     (if int (length chosen) < n_attempts then
        fill_chosen R n_attempts max_seconds
          (List.insert (fst (rng_randint R 1 max_seconds g)) chosen)
          (snd (rng_randint R 1 max_seconds g))
      else Some (chosen, g))"

declare fill_chosen.simps [code]

definition sorted_attempt_times :: "'g rng \<Rightarrow> int \<Rightarrow> int \<Rightarrow> 'g \<Rightarrow> (int list \<times> 'g) option" where
  "sorted_attempt_times R base_dt n_attempts g =
     (if n_attempts \<le> 0 then Some ([], g)
      else
        (let max_seconds = max 1 (PAYMENT_WINDOW_SECONDS - 2);
             n = min n_attempts max_seconds
         in case fill_chosen R n max_seconds [] g of
              None \<Rightarrow> None
            | Some (chosen, g') \<Rightarrow> Some (map (\<lambda>s. base_dt + s) (sort chosen), g')))"

definition draw_total_attempts_planned :: "'g rng \<Rightarrow> 'g \<Rightarrow> error + (int \<times> 'g)" where
  "draw_total_attempts_planned R g =
     (case GLOBAL_ATTEMPT_WEIGHTS of
        Inl e \<Rightarrow> Inl e
      | Inr weights \<Rightarrow>
          (case weighted_choice_key R weights g of
             Inl e \<Rightarrow> Inl e
           | Inr (n, g') \<Rightarrow> Inr (min n MAX_GLOBAL_ATTEMPTS, g')))"

subsection \<open>The per-order attempt loop (lines 311-406)\<close>

text \<open>
  The local variables of one iteration of \<^verbatim>\<open>for order in orders\<close>. \<open>rows\<close> holds the rows
  appended while this order is processed; the caller appends them to the run's list.
\<close>

record 'g attempt_state =
  current_method :: string
  method_counts :: "string \<rightharpoonup> int"
  paid :: bool
  attempt_no :: int
  rows :: "payment_row list"
  rng_state :: 'g

datatype 'a flow = Break 'a | Next 'a

text \<open>Lines 325-329: the first attempt uses the initial method, a later one asks
  \<^verbatim>\<open>pick_next_method\<close> and makes its answer the current method.\<close>

definition choose_method :: "'g rng \<Rightarrow> 'g attempt_state \<Rightarrow> error + (string \<times> 'g attempt_state)" where
  "choose_method R s =
     (if attempt_no s = 0 then Inr (current_method s, s)
      else
        (case pick_next_method R (current_method s) (method_counts s) (rng_state s) of
           Inl e \<Rightarrow> Inl e
         | Inr (method, g') \<Rightarrow> Inr (method, s\<lparr>current_method := method, rng_state := g'\<rparr>)))"

text \<open>Lines 331-342, the cap per method: a method at its cap is replaced by a weighted
  draw among the other methods under their caps; \<open>None\<close> is the \<^verbatim>\<open>break\<close> of line 342.\<close>

definition cap_check ::
  "'g rng \<Rightarrow> string \<Rightarrow> 'g attempt_state \<Rightarrow> error + (string \<times> 'g attempt_state) option" where
  "cap_check R method s =
     (case map_of PAYMENT_METHOD_CONFIG method of
        None \<Rightarrow> Inl (KeyError method)
      | Some cfg \<Rightarrow>
          (case method_counts s method of
             None \<Rightarrow> Inl (KeyError method)
           | Some c \<Rightarrow>
               if c \<ge> min (max_attempts cfg) MAX_GLOBAL_ATTEMPTS then
                 (let alt_avail = remove1 method (available_methods_by_cap (method_counts s)) in
                  if alt_avail \<noteq> [] then
                    (case weights_of alt_avail of
                       Inl e \<Rightarrow> Inl e
                     | Inr alt_weights \<Rightarrow>
                         (case weighted_choice_key R alt_weights (rng_state s) of
                            Inl e \<Rightarrow> Inl e
                          | Inr (m, g') \<Rightarrow>
                              Inr (Some (m, s\<lparr>current_method := m, rng_state := g'\<rparr>))))
                  else Inr None)
               else Inr (Some (method, s))))"

text \<open>Lines 344-378: count the attempt, draw its outcome, look the method up, append the
  row. A method without an id takes the \<^verbatim>\<open>continue\<close> of line 353.\<close>

definition record_attempt ::
  "'g rng \<Rightarrow> (string \<times> int) list \<Rightarrow> (string \<times> int) list \<Rightarrow> OrderInfo \<Rightarrow> int \<Rightarrow> string \<Rightarrow>
     'g attempt_state \<Rightarrow> error + 'g attempt_state flow" where
  "record_attempt R method_id_by_code status_id_by_code order t method s =
     (let s1 = s\<lparr>method_counts :=
                   (method_counts s)(method \<mapsto> dict_get (method_counts s) method 0 + 1),
                 attempt_no := attempt_no s + 1\<rparr>
      in case map_of PAYMENT_METHOD_CONFIG method of
           None \<Rightarrow> Inl (KeyError method)
         | Some cfg \<Rightarrow>
             (let is_success = fst (rng_random R (rng_state s1)) < success_rate cfg;
                  s2 = s1\<lparr>rng_state := snd (rng_random R (rng_state s1))\<rparr>
              in case map_of method_id_by_code method of
                   None \<Rightarrow> Inr (Next s2)
                 | Some method_id \<Rightarrow>
                     if is_success then
                       (case map_of status_id_by_code ''paid'' of
                          None \<Rightarrow> Inl (KeyError ''paid'')
                        | Some status_id \<Rightarrow>
                            Inr (Break (s2\<lparr>rows := rows s2 @
                                   [\<lparr>row_order_id = order_id order,
                                     row_attempt_no = attempt_no s2,
                                     row_payment_date = t,
                                     row_amount_paid = order_total order,
                                     row_payment_method_id = method_id,
                                     row_payment_status_id = status_id\<rparr>],
                                 paid := True\<rparr>)))
                     else
                       (case map_of status_id_by_code ''failed'' of
                          None \<Rightarrow> Inl (KeyError ''failed'')
                        | Some status_id \<Rightarrow>
                            Inr (Next (s2\<lparr>rows := rows s2 @
                                   [\<lparr>row_order_id = order_id order,
                                     row_attempt_no = attempt_no s2,
                                     row_payment_date = t,
                                     row_amount_paid = 0,
                                     row_payment_method_id = method_id,
                                     row_payment_status_id = status_id\<rparr>]\<rparr>)))))"

text \<open>One iteration of \<^verbatim>\<open>for t in attempt_times\<close> (lines 321-378).\<close>

definition attempt_body ::
  "'g rng \<Rightarrow> (string \<times> int) list \<Rightarrow> (string \<times> int) list \<Rightarrow> OrderInfo \<Rightarrow> int \<Rightarrow>
     'g attempt_state \<Rightarrow> error + 'g attempt_state flow" where
  "attempt_body R method_id_by_code status_id_by_code order t s =
     (if paid s then Inr (Break s)
      else
        (case choose_method R s of
           Inl e \<Rightarrow> Inl e
         | Inr (method, s1) \<Rightarrow>
             (case cap_check R method s1 of
                Inl e \<Rightarrow> Inl e
              | Inr None \<Rightarrow> Inr (Break s1)
              | Inr (Some (method', s2)) \<Rightarrow>
                  record_attempt R method_id_by_code status_id_by_code order t method' s2)))"

fun attempt_loop ::
  "'g rng \<Rightarrow> (string \<times> int) list \<Rightarrow> (string \<times> int) list \<Rightarrow> OrderInfo \<Rightarrow> int list \<Rightarrow>
     'g attempt_state \<Rightarrow> error + 'g attempt_state" where
  "attempt_loop R method_id_by_code status_id_by_code order [] s = Inr s"
| "attempt_loop R method_id_by_code status_id_by_code order (t # ts) s =
     (case attempt_body R method_id_by_code status_id_by_code order t s of
        Inl e \<Rightarrow> Inl e
      | Inr (Break s') \<Rightarrow> Inr s'
      | Inr (Next s') \<Rightarrow> attempt_loop R method_id_by_code status_id_by_code order ts s')"

text \<open>Lines 380-406: an order left unpaid gets a forced successful row unless its status
  is 5 (cancelled). \<^verbatim>\<open>next(iter(...))\<close> on an empty table raises \<^verbatim>\<open>StopIteration\<close>.\<close>

definition force_success ::
  "(string \<times> int) list \<Rightarrow> (string \<times> int) list \<Rightarrow> OrderInfo \<Rightarrow> int list \<Rightarrow>
     'g attempt_state \<Rightarrow> error + 'g attempt_state" where
  "force_success method_id_by_code status_id_by_code order attempt_times s =
     (if \<not> paid s then
        (if order_status order \<noteq> 5 then
           (let t_force = (if attempt_times \<noteq> [] then last attempt_times + 1
                           else order_date order + 1)
            in case (case map_of method_id_by_code (current_method s) of
                       Some i \<Rightarrow> Inr i
                     | None \<Rightarrow>
                         (case method_id_by_code of
                            [] \<Rightarrow> Inl StopIteration
                          | (c, i) # rest \<Rightarrow> Inr i)) of
                 Inl e \<Rightarrow> Inl e
               | Inr method_id \<Rightarrow>
                   (case map_of status_id_by_code ''paid'' of
                      None \<Rightarrow> Inl (KeyError ''paid'')
                    | Some status_id \<Rightarrow>
                        Inr (s\<lparr>attempt_no := attempt_no s + 1,
                               rows := rows s @
                                 [\<lparr>row_order_id = order_id order,
                                   row_attempt_no = attempt_no s + 1,
                                   row_payment_date = t_force,
                                   row_amount_paid = order_total order,
                                   row_payment_method_id = method_id,
                                   row_payment_status_id = status_id\<rparr>]\<rparr>)))
         else Inr s)
      else Inr s)"

text \<open>The body of \<^verbatim>\<open>for order in orders\<close>: the rows it appends and the generator state
  it leaves.\<close>

definition process_order ::
  "'g rng \<Rightarrow> (string \<times> int) list \<Rightarrow> (string \<times> int) list \<Rightarrow> OrderInfo \<Rightarrow> 'g \<Rightarrow>
     (error + (payment_row list \<times> 'g)) option" where
  "process_order R method_id_by_code status_id_by_code order g =
     (case draw_total_attempts_planned R g of
        Inl e \<Rightarrow> Some (Inl e)
      | Inr (planned_attempts, g1) \<Rightarrow>
          (case sorted_attempt_times R (order_date order) planned_attempts g1 of
             None \<Rightarrow> None
           | Some (attempt_times, g2) \<Rightarrow>
               Some
                 (case weighted_choice_key R build_method_weights g2 of
                    Inl e \<Rightarrow> Inl e
                  | Inr (method, g3) \<Rightarrow>
                      (case attempt_loop R method_id_by_code status_id_by_code order
                              attempt_times
                              \<lparr>current_method = method,
                               method_counts =
                                 map_of (map (\<lambda>(m, cfg). (m, 0)) PAYMENT_METHOD_CONFIG),
                               paid = False, attempt_no = 0, rows = [], rng_state = g3\<rparr> of
                         Inl e \<Rightarrow> Inl e
                       | Inr s \<Rightarrow>
                           (case force_success method_id_by_code status_id_by_code order
                                   attempt_times s of
                              Inl e \<Rightarrow> Inl e
                            | Inr s' \<Rightarrow> Inr (rows s', rng_state s'))))))"

text \<open>Lines 312-378 on their own: the timestamps drawn for an order and the locals its
  attempt loop leaves behind, before the forced resolution of lines 380-406.\<close>

definition order_attempts ::
  "'g rng \<Rightarrow> (string \<times> int) list \<Rightarrow> (string \<times> int) list \<Rightarrow> OrderInfo \<Rightarrow> 'g \<Rightarrow>
     (error + (int list \<times> 'g attempt_state)) option" where
  "order_attempts R method_id_by_code status_id_by_code order g =
     (case draw_total_attempts_planned R g of
        Inl e \<Rightarrow> Some (Inl e)
      | Inr (planned_attempts, g1) \<Rightarrow>
          (case sorted_attempt_times R (order_date order) planned_attempts g1 of
             None \<Rightarrow> None
           | Some (attempt_times, g2) \<Rightarrow>
               Some
                 (case weighted_choice_key R build_method_weights g2 of
                    Inl e \<Rightarrow> Inl e
                  | Inr (method, g3) \<Rightarrow>
                      (case attempt_loop R method_id_by_code status_id_by_code order
                              attempt_times
                              \<lparr>current_method = method,
                               method_counts =
                                 map_of (map (\<lambda>(m, cfg). (m, 0)) PAYMENT_METHOD_CONFIG),
                               paid = False, attempt_no = 0, rows = [], rng_state = g3\<rparr> of
                         Inl e \<Rightarrow> Inl e
                       | Inr s \<Rightarrow> Inr (attempt_times, s)))))"

text \<open>The loop \<^verbatim>\<open>for order in orders\<close> (line 311), accumulating the rows.\<close>

fun generate ::
  "'g rng \<Rightarrow> (string \<times> int) list \<Rightarrow> (string \<times> int) list \<Rightarrow> OrderInfo list \<Rightarrow>
     payment_row list \<Rightarrow> 'g \<Rightarrow> (error + (payment_row list \<times> 'g)) option" where
  "generate R method_id_by_code status_id_by_code [] all_rows g = Some (Inr (all_rows, g))"
| "generate R method_id_by_code status_id_by_code (order # orders) all_rows g =
     (case process_order R method_id_by_code status_id_by_code order g of
        None \<Rightarrow> None
      | Some (Inl e) \<Rightarrow> Some (Inl e)
      | Some (Inr (new_rows, g')) \<Rightarrow>
          generate R method_id_by_code status_id_by_code orders (all_rows @ new_rows) g')"

subsection \<open>Orchestration (lines 285-427)\<close>

text \<open>
  \<^verbatim>\<open>run(seed)\<close> from the fetched tables on: the generator is seeded once, the orders are
  processed in sequence, the rows are inserted in batches into the cleared table, and the
  report printed at the end shows the counts and the time between the two readings of
  \<^verbatim>\<open>time.perf_counter()\<close>. The result is the list of committed units and the report.
\<close>

record report =
  rep_total :: int
  rep_orders :: int
  rep_batches :: int
  rep_elapsed :: real

definition run ::
  "'g rng \<Rightarrow> real \<times> real \<Rightarrow> int \<Rightarrow> (string \<times> int) list \<Rightarrow> (string \<times> int) list \<Rightarrow>
     OrderInfo list \<Rightarrow> (error + (payment_row list list \<times> report)) option" where
  "run R perf_counter seed method_id_by_code status_id_by_code orders =
     (case generate R method_id_by_code status_id_by_code orders [] (rng_seed R seed) of
        None \<Rightarrow> None
      | Some (Inl e) \<Rightarrow> Some (Inl e)
      | Some (Inr (all_rows, g)) \<Rightarrow>
          (case insert_payments_in_batches [] all_rows BATCH_SIZE of
             ((n_total, n_batches), conn) \<Rightarrow>
               Some (Inr (conn,
                 \<lparr>rep_total = n_total, rep_orders = int (length orders),
                  rep_batches = n_batches,
                  rep_elapsed = snd perf_counter - fst perf_counter\<rparr>))))"

section \<open>Invariants of the attempt loop\<close>

text \<open>
  The predicates in which the loop of lines 321-378 is analysed: the cap of a method, the
  well-formedness of the counters, the shape of the rows appended so far, and a relation
  \<open>attempt_step\<close> listing the five ways one iteration can end (already paid, no method
  left under its cap, attempt skipped for lack of a method id, failed attempt, successful
  attempt).
\<close>

definition cap_of :: "string \<Rightarrow> int" where
  "cap_of m =
     (case map_of PAYMENT_METHOD_CONFIG m of
        None \<Rightarrow> MAX_GLOBAL_ATTEMPTS
      | Some cfg \<Rightarrow> min (max_attempts cfg) MAX_GLOBAL_ATTEMPTS)"

definition counts_ok :: "(string \<rightharpoonup> int) \<Rightarrow> bool" where
  "counts_ok mc =
     list_all (\<lambda>m. case mc m of None \<Rightarrow> False | Some c \<Rightarrow> 0 \<le> c \<and> c \<le> cap_of m)
       (map fst PAYMENT_METHOD_CONFIG)"

definition configured :: "string \<Rightarrow> bool" where
  "configured m = (m \<in> set (map fst PAYMENT_METHOD_CONFIG))"

fun flow_state :: "'a flow \<Rightarrow> 'a" where
  "flow_state (Break s) = s"
| "flow_state (Next s) = s"

inductive attempt_step ::
  "(string \<times> int) list \<Rightarrow> int \<Rightarrow> int \<Rightarrow> OrderInfo \<Rightarrow> int \<Rightarrow>
     'g attempt_state \<Rightarrow> 'g attempt_state flow \<Rightarrow> bool"
  for mt :: "(string \<times> int) list" and p :: int and f :: int and order :: OrderInfo
    and t :: int and s :: "'g attempt_state" where
  already_paid: "paid s \<Longrightarrow> attempt_step mt p f order t s (Break s)"
| no_method:
    "\<not> paid s \<Longrightarrow> configured m \<Longrightarrow>
     attempt_step mt p f order t s (Break (s\<lparr>current_method := m, rng_state := g'\<rparr>))"
| skipped:
    "\<not> paid s \<Longrightarrow> configured m \<Longrightarrow> method_counts s m = Some c \<Longrightarrow> 0 \<le> c \<Longrightarrow>
     c < cap_of m \<Longrightarrow> map_of mt m = None \<Longrightarrow>
     attempt_step mt p f order t s
       (Next (s\<lparr>current_method := m, method_counts := (method_counts s)(m \<mapsto> c + 1),
                attempt_no := attempt_no s + 1, rng_state := g'\<rparr>))"
| failed:
    "\<not> paid s \<Longrightarrow> configured m \<Longrightarrow> method_counts s m = Some c \<Longrightarrow> 0 \<le> c \<Longrightarrow>
     c < cap_of m \<Longrightarrow> map_of mt m = Some i \<Longrightarrow>
     attempt_step mt p f order t s
       (Next (s\<lparr>current_method := m, method_counts := (method_counts s)(m \<mapsto> c + 1),
                attempt_no := attempt_no s + 1, rng_state := g',
                rows := rows s @
                  [\<lparr>row_order_id = order_id order, row_attempt_no = attempt_no s + 1,
                    row_payment_date = t, row_amount_paid = 0,
                    row_payment_method_id = i, row_payment_status_id = f\<rparr>]\<rparr>))"
| succeeded:
    "\<not> paid s \<Longrightarrow> configured m \<Longrightarrow> method_counts s m = Some c \<Longrightarrow> 0 \<le> c \<Longrightarrow>
     c < cap_of m \<Longrightarrow> map_of mt m = Some i \<Longrightarrow>
     attempt_step mt p f order t s
       (Break (s\<lparr>current_method := m, method_counts := (method_counts s)(m \<mapsto> c + 1),
                 attempt_no := attempt_no s + 1, rng_state := g',
                 rows := rows s @
                   [\<lparr>row_order_id = order_id order, row_attempt_no = attempt_no s + 1,
                     row_payment_date = t, row_amount_paid = order_total order,
                     row_payment_method_id = i, row_payment_status_id = p\<rparr>],
                 paid := True\<rparr>))"

definition state_ok :: "'g attempt_state \<Rightarrow> bool" where
  "state_ok s = (configured (current_method s) \<and> counts_ok (method_counts s) \<and> 0 \<le> attempt_no s)"

definition failed_row :: "int \<Rightarrow> payment_row \<Rightarrow> bool" where
  "failed_row f r = (row_payment_status_id r = f \<and> row_amount_paid r = 0)"

definition paid_row :: "int \<Rightarrow> OrderInfo \<Rightarrow> payment_row \<Rightarrow> bool" where
  "paid_row p order r = (row_payment_status_id r = p \<and> row_amount_paid r = order_total order)"

definition rows_ok :: "int \<Rightarrow> int \<Rightarrow> OrderInfo \<Rightarrow> 'g attempt_state \<Rightarrow> bool" where
  "rows_ok p f order s =
     ((\<forall>r \<in> set (rows s). row_order_id r = order_id order \<and> 1 \<le> row_attempt_no r
          \<and> row_attempt_no r \<le> attempt_no s)
      \<and> sorted_wrt (<) (map row_attempt_no (rows s))
      \<and> (if paid s
          then \<exists>fs r. rows s = fs @ [r] \<and> paid_row p order r \<and> (\<forall>x \<in> set fs. failed_row f x)
          else \<forall>x \<in> set (rows s). failed_row f x))"

definition all_methods_known :: "(string \<times> int) list \<Rightarrow> bool" where
  "all_methods_known mt = list_all (\<lambda>m. map_of mt m \<noteq> None) (map fst PAYMENT_METHOD_CONFIG)"

definition gapless :: "'g attempt_state \<Rightarrow> bool" where
  "gapless s = (map row_attempt_no (rows s) = [1..attempt_no s])"

definition method_ids_distinct :: "(string \<times> int) list \<Rightarrow> bool" where
  "method_ids_distinct mt =
     distinct (List.map_filter (map_of mt) (map fst PAYMENT_METHOD_CONFIG))"

definition rows_within_counts :: "(string \<times> int) list \<Rightarrow> 'g attempt_state \<Rightarrow> bool" where
  "rows_within_counts mt s =
     (\<forall>m i. configured m \<and> map_of mt m = Some i \<longrightarrow>
        int (length (filter (\<lambda>r. row_payment_method_id r = i) (rows s)))
          \<le> dict_get (method_counts s) m 0)"

definition initial_state :: "string \<Rightarrow> 'g \<Rightarrow> 'g attempt_state" where
  "initial_state method g =
     \<lparr>current_method = method,
      method_counts = map_of (map (\<lambda>(m, cfg). (m, 0)) PAYMENT_METHOD_CONFIG),
      paid = False, attempt_no = 0, rows = [], rng_state = g\<rparr>"

definition loop_inv ::
  "(string \<times> int) list \<Rightarrow> int \<Rightarrow> int \<Rightarrow> OrderInfo \<Rightarrow> 'g attempt_state \<Rightarrow> bool" where
  "loop_inv mt p f order s =
     (rows_ok p f order s \<and> (all_methods_known mt \<longrightarrow> gapless s)
      \<and> (method_ids_distinct mt \<longrightarrow> rows_within_counts mt s))"

definition forced_ok ::
  "int \<Rightarrow> OrderInfo \<Rightarrow> 'g attempt_state \<Rightarrow> payment_row list \<Rightarrow> bool" where
  "forced_ok p order s forced =
     (if paid s \<or> order_status order = 5 then forced = []
      else \<exists>r. forced = [r] \<and> row_order_id r = order_id order
             \<and> row_attempt_no r = attempt_no s + 1 \<and> paid_row p order r)"

definition order_rows_ok ::
  "(string \<times> int) list \<Rightarrow> int \<Rightarrow> int \<Rightarrow> OrderInfo \<Rightarrow> payment_row list \<Rightarrow> bool" where
  "order_rows_ok mt p f order rs =
     ((\<forall>r \<in> set rs. row_order_id r = order_id order \<and> 1 \<le> row_attempt_no r)
      \<and> sorted_wrt (<) (map row_attempt_no rs)
      \<and> (all_methods_known mt \<longrightarrow> map row_attempt_no rs = [1..int (length rs)])
      \<and> (\<exists>fs. (\<forall>x \<in> set fs. failed_row f x) \<and>
            ((order_status order = 5 \<and> rs = fs) \<or> (\<exists>r. rs = fs @ [r] \<and> paid_row p order r)))
      \<and> (method_ids_distinct mt \<longrightarrow>
            (\<exists>loop_rows forced. rs = loop_rows @ forced \<and> length forced \<le> 1
               \<and> (order_status order = 5 \<longrightarrow> forced = [])
               \<and> (\<forall>m i. configured m \<and> map_of mt m = Some i \<longrightarrow>
                     int (length (filter (\<lambda>r. row_payment_method_id r = i) loop_rows))
                       \<le> cap_of m))))"

subsection \<open>Concrete inputs\<close>

text \<open>Tables and orders on which the model is evaluated with the scripted generator.\<close>

definition example_methods :: "(string \<times> int) list" where
  "example_methods = [(''card'', 1), (''paypal'', 2), (''mbway'', 3), (''bank_transfer'', 4)]"

definition example_statuses :: "(string \<times> int) list" where
  "example_statuses = [(''paid'', 1), (''failed'', 2)]"

definition delivered_order :: OrderInfo where
  "delivered_order = \<lparr>order_id = 7, order_date = 1000, order_status = 3, order_total = 100\<rparr>"

definition cancelled_order :: OrderInfo where
  "cancelled_order = \<lparr>order_id = 8, order_date = 2000, order_status = 5, order_total = 50\<rparr>"

subsection \<open>Generators under which the timestamp loop ends\<close>

text \<open>
  The first \<open>k\<close> values a generator returns for \<^verbatim>\<open>randint(a, b)\<close> from a state, and the
  condition that from every state it eventually returns as many distinct offsets as an
  order can plan attempts. A counting generator satisfies it.
\<close>

fun randint_values :: "'g rng \<Rightarrow> int \<Rightarrow> int \<Rightarrow> 'g \<Rightarrow> nat \<Rightarrow> int list" where
  "randint_values R a b g 0 = []"
| "randint_values R a b g (Suc k) =
     fst (rng_randint R a b g) # randint_values R a b (snd (rng_randint R a b g)) k"

definition eventually_distinct :: "'g rng \<Rightarrow> bool" where
  "eventually_distinct R =
     (\<forall>g. \<exists>k. nat MAX_GLOBAL_ATTEMPTS
               \<le> card (set (randint_values R 1 (max 1 (PAYMENT_WINDOW_SECONDS - 2)) g k)))"

definition counter_rng :: "nat rng" where
  "counter_rng =
     \<lparr> rng_seed = (\<lambda>seed. nat \<bar>seed\<bar>),
       rng_random = (\<lambda>g. (0, Suc g)),
       rng_randint = (\<lambda>a b g. (a + int g mod (b - a + 1), Suc g)) \<rparr>"

subsection \<open>Generators that return the same draws\<close>

text \<open>
  Two generators, each with its own states, return the same draws under a relation
  between their states when, from related states, \<^verbatim>\<open>random()\<close> and \<^verbatim>\<open>randint(a, b)\<close>
  return equal values and leave related states. Two states of the attempt loop then hold
  the same locals when they differ at most in the generator state, which is related.
\<close>

definition same_draws :: "('g \<Rightarrow> 'h \<Rightarrow> bool) \<Rightarrow> 'g rng \<Rightarrow> 'h rng \<Rightarrow> bool" where
  "same_draws rel R R' =
     (\<forall>g h. rel g h \<longrightarrow>
        fst (rng_random R g) = fst (rng_random R' h)
        \<and> rel (snd (rng_random R g)) (snd (rng_random R' h))
        \<and> (\<forall>a b. fst (rng_randint R a b g) = fst (rng_randint R' a b h)
                 \<and> rel (snd (rng_randint R a b g)) (snd (rng_randint R' a b h))))"

definition same_locals ::
  "('g \<Rightarrow> 'h \<Rightarrow> bool) \<Rightarrow> 'g attempt_state \<Rightarrow> 'h attempt_state \<Rightarrow> bool" where
  "same_locals rel s s' =
     (current_method s = current_method s' \<and> method_counts s = method_counts s'
      \<and> paid s = paid s' \<and> attempt_no s = attempt_no s' \<and> rows s = rows s'
      \<and> rel (rng_state s) (rng_state s'))"

text \<open>A generator without state that returns the least value of every draw.\<close>

definition fixed_rng :: "unit rng" where
  "fixed_rng =
     \<lparr> rng_seed = (\<lambda>seed. ()),
       rng_random = (\<lambda>g. (0, ())),
       rng_randint = (\<lambda>a b g. (a, ())) \<rparr>"

section \<open>Facts about the library functions\<close>

lemma length_accumulate_from: "length (accumulate_from acc ws) = length ws"
  by (induction ws arbitrary: acc) simp_all

lemma length_accumulate: "length (accumulate ws) = length ws"
  by (cases ws) (simp_all add: length_accumulate_from)

lemma last_accumulate_from:
  "ws \<noteq> [] \<Longrightarrow> last (accumulate_from acc ws) = acc + sum_list ws"
proof (induction ws arbitrary: acc)
  case Nil
  then show ?case by simp
next
  case (Cons w ws)
  show ?case
  proof (cases ws)
    case Nil
    then show ?thesis by simp
  next
    case (Cons v vs)
    then have "accumulate_from (acc + w) ws \<noteq> []" by simp
    moreover have "last (accumulate_from (acc + w) ws) = acc + w + sum_list ws"
      using Cons.IH [of "acc + w"] Cons by simp
    ultimately show ?thesis by simp
  qed
qed

lemma last_accumulate: "ws \<noteq> [] \<Longrightarrow> last (accumulate ws) = sum_list ws"
proof (cases ws)
  case Nil
  assume "ws \<noteq> []"
  with Nil show ?thesis by simp
next
  case (Cons w vs)
  show ?thesis
  proof (cases vs)
    case Nil
    with Cons show ?thesis by simp
  next
    case (Cons u us)
    then have "accumulate_from w vs \<noteq> []" by simp
    then show ?thesis
      using \<open>ws = w # vs\<close> Cons last_accumulate_from [of vs w] by simp
  qed
qed

lemma bisect_bounds: "lo \<le> hi \<Longrightarrow> lo \<le> bisect a x lo hi \<and> bisect a x lo hi \<le> hi"
proof (induction a x lo hi rule: bisect.induct)
  case (1 a x lo hi)
  show ?case
  proof (cases "lo < hi")
    case False
    with "1.prems" show ?thesis by (simp add: bisect.simps)
  next
    case True
    define mid where "mid = (lo + hi) div 2"
    have m: "lo \<le> mid" "mid < hi" using True by (simp_all add: mid_def)
    show ?thesis
    proof (cases "x < a ! mid")
      case True
      have "lo \<le> bisect a x lo mid \<and> bisect a x lo mid \<le> mid"
        using "1.IH"(1) [OF \<open>lo < hi\<close> mid_def True] m by simp
      moreover have "bisect a x lo hi = bisect a x lo mid"
        using \<open>lo < hi\<close> True by (subst bisect.simps) (simp add: mid_def)
      ultimately show ?thesis using m by simp
    next
      case False
      have "mid + 1 \<le> bisect a x (mid + 1) hi \<and> bisect a x (mid + 1) hi \<le> hi"
        using "1.IH"(2) [OF \<open>lo < hi\<close> mid_def False] m by simp
      moreover have "bisect a x lo hi = bisect a x (mid + 1) hi"
        using \<open>lo < hi\<close> False by (subst bisect.simps) (simp add: mid_def)
      ultimately show ?thesis using m by simp
    qed
  qed
qed

lemma choices_cases:
  "choices R population weights g =
     (if length weights \<noteq> length population then
        Inl (ValueError ''The number of weights does not match the population'')
      else if population = [] then Inl IndexError
      else if sum_list weights \<le> 0 then
        Inl (ValueError ''Total of weights must be greater than zero'')
      else Inr (population ! bisect (accumulate weights)
                  (fst (rng_random R g) * sum_list weights) 0 (length population - 1),
                snd (rng_random R g)))"
proof -
  have e: "accumulate weights = [] \<longleftrightarrow> weights = []"
    using length_accumulate [of weights] by (metis length_0_conv)
  show ?thesis
    by (cases "weights = []")
       (auto simp: choices_def Let_def length_accumulate e last_accumulate split: prod.splits)
qed

lemma choices_member:
  assumes "choices R population weights g = Inr (x, g')"
  shows "x \<in> set population"
proof -
  from assms have ne: "population \<noteq> []" and
    x: "x = population ! bisect (accumulate weights)
          (fst (rng_random R g) * sum_list weights) 0 (length population - 1)"
    by (auto simp: choices_cases split: if_splits)
  have "bisect (accumulate weights) (fst (rng_random R g) * sum_list weights) 0
          (length population - 1) \<le> length population - 1"
    using bisect_bounds [of 0 "length population - 1"] by simp
  with ne have "bisect (accumulate weights) (fst (rng_random R g) * sum_list weights) 0
          (length population - 1) < length population"
    by (cases population) simp_all
  with x show ?thesis by simp
qed

section \<open>Claims about the weighted distribution engine\<close>

text \<open>
  Claim C6. \<^verbatim>\<open>normalize_distribution\<close> raises \<^verbatim>\<open>ValueError\<close> (the spec's
  InvalidDistribution) exactly when the mapping is empty, holds a negative weight or has a
  total that is not positive; otherwise every key is mapped to its weight divided by the
  total. On \<open>{A:0, B:0}\<close> and \<open>{A:-1, B:2}\<close> it raises, on \<open>{A:1, B:3}\<close> it returns
  \<open>{A:0.25, B:0.75}\<close>.
\<close>

theorem normalize_distribution_spec:
  "((d = [] \<or> (\<exists>v \<in> set (map snd d). v < 0) \<or> sum_list (map snd d) \<le> 0) \<longrightarrow>
      (\<exists>msg. normalize_distribution d = Inl (ValueError msg)))
   \<and> (\<not> (d = [] \<or> (\<exists>v \<in> set (map snd d). v < 0) \<or> sum_list (map snd d) \<le> 0) \<longrightarrow>
      normalize_distribution d = Inr (map (\<lambda>(k, v). (k, v / sum_list (map snd d))) d))
   \<and> (\<exists>msg. normalize_distribution [(''A'', 0), (''B'', 0)] = Inl (ValueError msg))
   \<and> (\<exists>msg. normalize_distribution [(''A'', -1), (''B'', 2)] = Inl (ValueError msg))
   \<and> normalize_distribution [(''A'', 1), (''B'', 3)] = Inr [(''A'', 0.25), (''B'', 0.75)]"
  by (auto simp: normalize_distribution_def Let_def list_ex_iff)

theorem normalize_distribution_spec_witness:
  "normalize_distribution [(''A'', 2), (''B'', 6)] = Inr [(''A'', 1 / 4), (''B'', 3 / 4)]
   \<and> (\<exists>msg. normalize_distribution ([] :: (string \<times> real) list) = Inl (ValueError msg))"
  using normalize_distribution_spec [of "[(''A'', 2), (''B'', 6)]"]
        normalize_distribution_spec [of "[] :: (string \<times> real) list"]
  by simp

text \<open>
  Claim C7, as stated, fails: \<^verbatim>\<open>weighted_choice_key\<close> checks only for an empty mapping
  and leaves the rest to \<^verbatim>\<open>choices\<close>, which looks at the total alone. On \<open>{A:-1, B:2}\<close>
  the total is 1, the draw returns \<open>B\<close>, and \<^verbatim>\<open>normalize_distribution\<close> raises.
\<close>

theorem weighted_choice_key_negative_weight:
  "weighted_choice_key scripted_rng [(''A'', -1), (''B'', 2)] ([], []) = Inr (''B'', ([], []))
   \<and> normalize_distribution [(''A'', -1 :: real), (''B'', 2)] =
        Inl (ValueError ''Distribution weights cannot be negative.'')"
  by (simp add: weighted_choice_key_def choices_def scripted_rng_def bisect.simps
        normalize_distribution_def)

text \<open>
  Claim C7, amended. \<^verbatim>\<open>weighted_choice_key\<close> raises \<^verbatim>\<open>ValueError\<close> exactly when the
  mapping is empty or its total is not positive; a negative weight alone is not rejected.
  On every other mapping it consumes one \<^verbatim>\<open>random()\<close> and returns one of the keys.
\<close>

theorem weighted_choice_key_spec:
  "((ws = [] \<or> sum_list (map snd ws) \<le> 0) \<longrightarrow>
      (\<exists>msg. weighted_choice_key R ws g = Inl (ValueError msg)))
   \<and> (\<not> (ws = [] \<or> sum_list (map snd ws) \<le> 0) \<longrightarrow>
      (\<exists>k. weighted_choice_key R ws g = Inr (k, snd (rng_random R g)) \<and> k \<in> fst ` set ws))"
proof (intro conjI impI)
  assume "ws = [] \<or> sum_list (map snd ws) \<le> 0"
  then show "\<exists>msg. weighted_choice_key R ws g = Inl (ValueError msg)"
    by (auto simp: weighted_choice_key_def choices_cases)
next
  assume a: "\<not> (ws = [] \<or> sum_list (map snd ws) \<le> 0)"
  then obtain k where k: "weighted_choice_key R ws g = Inr (k, snd (rng_random R g))"
    by (auto simp: weighted_choice_key_def choices_cases)
  then have "choices R (map fst ws) (map snd ws) g = Inr (k, snd (rng_random R g))"
    using a by (simp add: weighted_choice_key_def)
  then have "k \<in> set (map fst ws)" by (rule choices_member)
  with k show "\<exists>k. weighted_choice_key R ws g = Inr (k, snd (rng_random R g)) \<and> k \<in> fst ` set ws"
    by auto
qed

theorem weighted_choice_key_spec_witness:
  "(\<exists>k. weighted_choice_key scripted_rng [(''A'', 1), (''B'', 3)] ([1 / 2], []) = Inr (k, ([], []))
        \<and> k \<in> {''A'', ''B''})
   \<and> (\<exists>msg. weighted_choice_key scripted_rng [(''A'', 0), (''B'', 0)] ([], []) =
          Inl (ValueError msg))"
  using weighted_choice_key_spec [of "[(''A'', 1), (''B'', 3)]" scripted_rng "([1 / 2], [])"]
        weighted_choice_key_spec [of "[(''A'', 0), (''B'', 0)]" scripted_rng "([], [])"]
  by (simp add: scripted_rng_def)

section \<open>Claims about the batch persistence buffer\<close>

lemma insert_loop_inv:
  assumes "0 < bs" and "length (b_buf s) < nat bs"
  shows "\<exists>cs. b_conn (insert_loop bs rs s) = b_conn s @ cs
            \<and> concat cs @ b_buf (insert_loop bs rs s) = b_buf s @ rs
            \<and> (\<forall>c \<in> set cs. length c = nat bs)
            \<and> length (b_buf (insert_loop bs rs s)) < nat bs
            \<and> b_total (insert_loop bs rs s) = b_total s + int (length (concat cs))
            \<and> b_batches (insert_loop bs rs s) = b_batches s + int (length cs)"
  using assms
proof (induction rs arbitrary: s)
  case Nil
  then show ?case by simp
next
  case (Cons r rs)
  define s1 where "s1 = s\<lparr>b_buf := b_buf s @ [r]\<rparr>"
  show ?case
  proof (cases "int (length (b_buf s1)) \<ge> bs")
    case True
    with Cons.prems have len: "length (b_buf s @ [r]) = nat bs" by (simp add: s1_def)
    define u where "u = flush s1"
    define t where "t = insert_loop bs rs u"
    have step: "insert_loop bs (r # rs) s = t"
      using True Cons.prems by (simp add: Let_def s1_def t_def u_def)
    have u: "b_buf u = []" "b_conn u = b_conn s @ [b_buf s @ [r]]"
      "b_total u = b_total s + int (length (b_buf s @ [r]))" "b_batches u = b_batches s + 1"
      by (simp_all add: u_def flush_def s1_def)
    have "length (b_buf u) < nat bs" using Cons.prems u by simp
    from Cons.IH [OF Cons.prems(1) this] obtain cs where cs:
      "b_conn t = b_conn u @ cs"
      "concat cs @ b_buf t = b_buf u @ rs"
      "\<forall>c \<in> set cs. length c = nat bs"
      "length (b_buf t) < nat bs"
      "b_total t = b_total u + int (length (concat cs))"
      "b_batches t = b_batches u + int (length cs)"
      unfolding t_def by blast
    have "b_conn t = b_conn s @ ((b_buf s @ [r]) # cs)" using cs(1) u by simp
    moreover have "concat ((b_buf s @ [r]) # cs) @ b_buf t = b_buf s @ r # rs"
      using cs(2) u by simp
    moreover have "\<forall>c \<in> set ((b_buf s @ [r]) # cs). length c = nat bs"
      using cs(3) len by simp
    moreover have "b_total t = b_total s + int (length (concat ((b_buf s @ [r]) # cs)))"
      using cs(5) u by simp
    moreover have "b_batches t = b_batches s + int (length ((b_buf s @ [r]) # cs))"
      using cs(6) u by simp
    ultimately show ?thesis unfolding step using cs(4) by blast
  next
    case False
    define t where "t = insert_loop bs rs s1"
    have step: "insert_loop bs (r # rs) s = t"
      using False by (simp add: Let_def s1_def t_def)
    have u: "b_buf s1 = b_buf s @ [r]" "b_conn s1 = b_conn s"
      "b_total s1 = b_total s" "b_batches s1 = b_batches s"
      by (simp_all add: s1_def)
    have "length (b_buf s1) < nat bs" using False by simp
    from Cons.IH [OF Cons.prems(1) this] obtain cs where cs:
      "b_conn t = b_conn s1 @ cs"
      "concat cs @ b_buf t = b_buf s1 @ rs"
      "\<forall>c \<in> set cs. length c = nat bs"
      "length (b_buf t) < nat bs"
      "b_total t = b_total s1 + int (length (concat cs))"
      "b_batches t = b_batches s1 + int (length cs)"
      unfolding t_def by blast
    have "concat cs @ b_buf t = b_buf s @ r # rs" using cs(2) u by simp
    then show ?thesis unfolding step using cs u by auto
  qed
qed

lemma length_concat_uniform:
  "\<forall>c \<in> set cs. length c = b \<Longrightarrow> length (concat cs) = length cs * b"
  by (induction cs) simp_all

lemma map_length_uniform:
  "\<forall>c \<in> set cs. length c = b \<Longrightarrow> map length cs = replicate (length cs) b"
  by (induction cs) simp_all

lemma insert_payments_in_batches_chunks:
  assumes bs: "0 < batch_size"
  shows "\<exists>chunks. snd (insert_payments_in_batches conn rs batch_size) = conn @ chunks
           \<and> concat chunks = rs
           \<and> (\<forall>c \<in> set chunks. c \<noteq> [] \<and> int (length c) \<le> batch_size)
           \<and> map length chunks =
               replicate (length rs div nat batch_size) (nat batch_size) @
               (if length rs mod nat batch_size = 0 then [] else [length rs mod nat batch_size])
           \<and> fst (insert_payments_in_batches conn rs batch_size) =
               (int (length rs), int (length chunks))"
proof (cases "rs = []")
  case True
  then show ?thesis by (simp add: insert_payments_in_batches_def)
next
  case False
  let ?ini = "\<lparr>b_total = 0, b_batches = 0, b_buf = [], b_conn = conn\<rparr> :: 'a batch_state"
  let ?fin = "insert_loop batch_size rs ?ini"
  have "length (b_buf ?ini) < nat batch_size" using bs by simp
  from insert_loop_inv [OF bs this, of rs] obtain cs where cs:
    "b_conn ?fin = conn @ cs" "concat cs @ b_buf ?fin = rs"
    "\<forall>c \<in> set cs. length c = nat batch_size"
    "length (b_buf ?fin) < nat batch_size"
    "b_total ?fin = int (length (concat cs))" "b_batches ?fin = int (length cs)"
    by (auto simp del: insert_loop.simps)
  have n: "length rs = length cs * nat batch_size + length (b_buf ?fin)"
    using cs(2) length_concat_uniform [OF cs(3)] by (metis length_append)
  have d: "length rs div nat batch_size = length cs" using n cs(4) by simp
  have m: "length rs mod nat batch_size = length (b_buf ?fin)" using n cs(4) by simp
  have ml: "map length cs = replicate (length cs) (nat batch_size)"
    by (rule map_length_uniform [OF cs(3)])
  have pos: "\<forall>c \<in> set cs. c \<noteq> [] \<and> int (length c) \<le> batch_size"
    using cs(3) bs by auto
  show ?thesis
  proof (cases "b_buf ?fin = []")
    case True
    have "snd (insert_payments_in_batches conn rs batch_size) = conn @ cs"
      "fst (insert_payments_in_batches conn rs batch_size) = (int (length rs), int (length cs))"
      using False True cs by (simp_all add: insert_payments_in_batches_def Let_def)
    moreover have "concat cs = rs" using cs(2) True by simp
    ultimately show ?thesis using pos ml d m True by auto
  next
    case nonempty: False
    have "snd (insert_payments_in_batches conn rs batch_size) = conn @ (cs @ [b_buf ?fin])"
      using False nonempty cs by (simp add: insert_payments_in_batches_def Let_def flush_def)
    moreover have "fst (insert_payments_in_batches conn rs batch_size) =
        (int (length rs), int (length (cs @ [b_buf ?fin])))"
      using False nonempty cs n length_concat_uniform [OF cs(3)]
      by (simp add: insert_payments_in_batches_def Let_def flush_def)
    moreover have "concat (cs @ [b_buf ?fin]) = rs" using cs(2) by simp
    moreover have "\<forall>c \<in> set (cs @ [b_buf ?fin]). c \<noteq> [] \<and> int (length c) \<le> batch_size"
      using pos nonempty cs(4) by auto
    moreover have "map length (cs @ [b_buf ?fin]) =
               replicate (length rs div nat batch_size) (nat batch_size) @
               (if length rs mod nat batch_size = 0 then [] else [length rs mod nat batch_size])"
      using ml d m nonempty by simp
    ultimately show ?thesis by blast
  qed
qed

text \<open>
  Claim C9. For a positive flush threshold, the units handed to storage by
  \<^verbatim>\<open>insert_payments_in_batches\<close> concatenate to exactly the rows produced, in their
  order; each unit is non-empty and no longer than the threshold; the returned pair is
  the number of rows and the number of units. With threshold 3 and 7 rows the units have
  sizes 3, 3 and 1.
\<close>

theorem insert_payments_in_batches_spec:
  assumes "0 < batch_size"
  shows "\<exists>chunks. snd (insert_payments_in_batches conn rs batch_size) = conn @ chunks
           \<and> concat chunks = rs
           \<and> (\<forall>c \<in> set chunks. c \<noteq> [] \<and> int (length c) \<le> batch_size)
           \<and> fst (insert_payments_in_batches conn rs batch_size) =
               (int (length rs), int (length chunks))
           \<and> (batch_size = 3 \<and> length rs = 7 \<longrightarrow> map length chunks = [3, 3, 1])"
proof -
  from insert_payments_in_batches_chunks [OF assms, of conn rs] obtain chunks where c:
    "snd (insert_payments_in_batches conn rs batch_size) = conn @ chunks"
    "concat chunks = rs"
    "\<forall>c \<in> set chunks. c \<noteq> [] \<and> int (length c) \<le> batch_size"
    "map length chunks =
       replicate (length rs div nat batch_size) (nat batch_size) @
       (if length rs mod nat batch_size = 0 then [] else [length rs mod nat batch_size])"
    "fst (insert_payments_in_batches conn rs batch_size) =
       (int (length rs), int (length chunks))"
    by blast
  have sizes: "batch_size = 3 \<and> length rs = 7 \<longrightarrow> map length chunks = [3, 3, 1]"
  proof
    assume a: "batch_size = 3 \<and> length rs = 7"
    then have "nat batch_size = 3" "length rs div 3 = 2" "length rs mod 3 = 1" by simp_all
    with c(4) show "map length chunks = [3, 3, 1]"
      by (simp add: numeral_2_eq_2)
  qed
  show ?thesis
    by (intro exI [of _ chunks] conjI) (rule c(1) c(2) c(3) c(5) sizes)+
qed

theorem insert_payments_in_batches_spec_witness:
  "(0 :: int) < 3 \<and>
   (\<exists>chunks. snd (insert_payments_in_batches [] [1, 2, 3, 4, 5, 6, 7 :: nat] 3) = [] @ chunks
      \<and> concat chunks = [1, 2, 3, 4, 5, 6, 7]
      \<and> (\<forall>c \<in> set chunks. c \<noteq> [] \<and> int (length c) \<le> 3)
      \<and> fst (insert_payments_in_batches [] [1, 2, 3, 4, 5, 6, 7 :: nat] 3) =
          (int (length [1, 2, 3, 4, 5, 6, 7 :: nat]), int (length chunks))
      \<and> ((3 :: int) = 3 \<and> length [1, 2, 3, 4, 5, 6, 7 :: nat] = 7 \<longrightarrow>
           map length chunks = [3, 3, 1]))"
proof -
  have h: "(0 :: int) < 3" by simp
  show ?thesis
    by (rule conjI [OF h insert_payments_in_batches_spec [OF h]])
qed

section \<open>Claims about sampling without replacement\<close>

text \<open>
  Claim C8 at the input the code does not handle: one candidate of weight 0 and
  \<open>k = 1\<close>. The first round calls \<^verbatim>\<open>choices\<close> before the guard on the remaining
  weights is ever reached, and \<^verbatim>\<open>choices\<close> raises on a total that is not positive.
\<close>

theorem sample_unique_products_weighted_zero_weight:
  "sample_unique_products_weighted R [1] [1 \<mapsto> 0] 1 g =
     Inl (ValueError ''Total of weights must be greater than zero'')"
  by (simp add: sample_unique_products_weighted_def choices_def)

theorem sample_unique_products_weighted_zero_weight_witness:
  "sample_unique_products_weighted scripted_rng [1] [1 \<mapsto> 0] 1 ([], []) =
     Inl (ValueError ''Total of weights must be greater than zero'')"
  using sample_unique_products_weighted_zero_weight [of scripted_rng "([], [])"] by simp

section \<open>Facts about the payment attempt simulator\<close>

lemma configured_cfg: "configured m \<Longrightarrow> \<exists>cfg. map_of PAYMENT_METHOD_CONFIG m = Some cfg"
  unfolding configured_def by (metis map_of_eq_None_iff not_Some_eq set_map)

lemma cfg_configured: "map_of PAYMENT_METHOD_CONFIG m = Some cfg \<Longrightarrow> configured m"
  unfolding configured_def by (metis map_of_eq_None_iff option.distinct(1) set_map)

lemma cfg_weight_pos: "map_of PAYMENT_METHOD_CONFIG m = Some cfg \<Longrightarrow> 0 < weight cfg"
  by (auto simp: PAYMENT_METHOD_CONFIG_def split: if_splits)

lemma counts_okD:
  "counts_ok mc \<Longrightarrow> configured m \<Longrightarrow> \<exists>c. mc m = Some c \<and> 0 \<le> c \<and> c \<le> cap_of m"
  unfolding counts_ok_def configured_def list_all_iff by (auto split: option.splits)

lemma available_configured:
  "m \<in> set (available_methods_by_cap mc) \<Longrightarrow> configured m"
  unfolding available_methods_by_cap_def configured_def by auto

lemma distinct_cfg: "distinct (map fst PAYMENT_METHOD_CONFIG)"
  by (simp add: PAYMENT_METHOD_CONFIG_def)

lemma available_under_cap:
  "m \<in> set (available_methods_by_cap mc) \<Longrightarrow> dict_get mc m 0 < cap_of m"
proof -
  assume "m \<in> set (available_methods_by_cap mc)"
  then obtain cfg where in_cfg: "(m, cfg) \<in> set PAYMENT_METHOD_CONFIG"
    and lt: "dict_get mc m 0 < min (max_attempts cfg) MAX_GLOBAL_ATTEMPTS"
    unfolding available_methods_by_cap_def by auto
  from in_cfg distinct_cfg have "map_of PAYMENT_METHOD_CONFIG m = Some cfg" by simp
  with lt show ?thesis by (simp add: cap_of_def)
qed

lemma weights_of_ok:
  "\<forall>m \<in> set ms. configured m \<Longrightarrow>
     \<exists>ws. weights_of ms = Inr ws \<and> map fst ws = ms \<and> (\<forall>w \<in> set (map snd ws). 0 < w)"
proof (induction ms)
  case Nil
  then show ?case by simp
next
  case (Cons m ms)
  then obtain ws where ws: "weights_of ms = Inr ws" "map fst ws = ms" "\<forall>w \<in> set (map snd ws). 0 < w"
    by auto
  from Cons.prems obtain cfg where cfg: "map_of PAYMENT_METHOD_CONFIG m = Some cfg"
    using configured_cfg by auto
  show ?case using ws cfg cfg_weight_pos [OF cfg] by simp
qed

lemma sum_list_pos_real:
  fixes ws :: "real list"
  shows "ws \<noteq> [] \<Longrightarrow> \<forall>w \<in> set ws. 0 < w \<Longrightarrow> 0 < sum_list ws"
  by (induction ws) (auto intro: add_pos_nonneg sum_list_nonneg less_imp_le)

lemma weighted_choice_key_pos:
  assumes "ws \<noteq> []" and "\<forall>w \<in> set (map snd ws). 0 < w"
  shows "\<exists>k. weighted_choice_key R ws g = Inr (k, snd (rng_random R g)) \<and> k \<in> set (map fst ws)"
proof -
  have pos: "0 < sum_list (map snd ws)" using assms by (intro sum_list_pos_real) auto
  then obtain k where k: "weighted_choice_key R ws g = Inr (k, snd (rng_random R g))"
    using assms(1) by (auto simp: weighted_choice_key_def choices_cases)
  then have "choices R (map fst ws) (map snd ws) g = Inr (k, snd (rng_random R g))"
    using assms(1) by (simp add: weighted_choice_key_def)
  then have "k \<in> set (map fst ws)" by (rule choices_member)
  with k show ?thesis by blast
qed

lemma pick_next_method_ok:
  assumes "configured current"
  shows "\<exists>m g'. pick_next_method R current mc g = Inr (m, g') \<and> configured m"
proof -
  define stay_g where "stay_g =
     (if dict_get mc current 0 \<ge>
           min (case map_of PAYMENT_METHOD_CONFIG current of
                  None \<Rightarrow> MAX_GLOBAL_ATTEMPTS | Some c \<Rightarrow> max_attempts c) MAX_GLOBAL_ATTEMPTS
      then (False, g)
      else (fst (rng_random R g) \<le>
              (case map_of PAYMENT_METHOD_CONFIG current of
                 None \<Rightarrow> 1 | Some c \<Rightarrow> stay_with_method_prob c),
            snd (rng_random R g)))"
  define available where "available = remove1 current (available_methods_by_cap mc)"
  have unfold: "pick_next_method R current mc g =
     (if fst stay_g then Inr (current, snd stay_g)
      else if available = [] then Inr (current, snd stay_g)
      else (case weights_of available of
              Inl e \<Rightarrow> Inl e
            | Inr weights \<Rightarrow> weighted_choice_key R weights (snd stay_g)))"
    unfolding pick_next_method_def Let_def stay_g_def available_def by (rule refl)
  have conf: "\<forall>m \<in> set available. configured m"
    using available_configured set_remove1_subset unfolding available_def by fastforce
  show ?thesis
  proof (cases "fst stay_g \<or> available = []")
    case True
    then show ?thesis using unfold assms by auto
  next
    case False
    from weights_of_ok [OF conf] obtain ws where ws:
      "weights_of available = Inr ws" "map fst ws = available" "\<forall>w \<in> set (map snd ws). 0 < w"
      by blast
    from False ws(2) have "ws \<noteq> []" by auto
    from weighted_choice_key_pos [OF this ws(3), of R "snd stay_g"] obtain k where
      k: "weighted_choice_key R ws (snd stay_g) = Inr (k, snd (rng_random R (snd stay_g)))"
         "k \<in> set (map fst ws)" by blast
    from k(2) ws(2) conf have "configured k" by simp
    then show ?thesis using unfold False ws(1) k(1) by auto
  qed
qed

lemma choose_method_ok:
  assumes "configured (current_method s)"
  shows "\<exists>m g'. choose_method R s = Inr (m, s\<lparr>current_method := m, rng_state := g'\<rparr>)
           \<and> configured m"
proof (cases "attempt_no s = 0")
  case True
  have "choose_method R s =
      Inr (current_method s, s\<lparr>current_method := current_method s, rng_state := rng_state s\<rparr>)"
    using True by (simp add: choose_method_def)
  with assms show ?thesis by blast
next
  case False
  from pick_next_method_ok [OF assms, of R "method_counts s" "rng_state s"] obtain m g' where
    "pick_next_method R (current_method s) (method_counts s) (rng_state s) = Inr (m, g')"
    "configured m" by blast
  then show ?thesis using False by (auto simp: choose_method_def)
qed

lemma cap_check_ok:
  assumes ok: "counts_ok (method_counts s)" and conf: "configured m"
    and cur: "current_method s = m"
  shows "cap_check R m s = Inr None \<or>
         (\<exists>m' g' c. cap_check R m s = Inr (Some (m', s\<lparr>current_method := m', rng_state := g'\<rparr>))
            \<and> configured m' \<and> method_counts s m' = Some c \<and> 0 \<le> c \<and> c < cap_of m')"
proof -
  from configured_cfg [OF conf] obtain cfg where cfg: "map_of PAYMENT_METHOD_CONFIG m = Some cfg"
    by blast
  from counts_okD [OF ok conf] obtain c where c: "method_counts s m = Some c" "0 \<le> c" "c \<le> cap_of m"
    by blast
  define alt_avail where "alt_avail = remove1 m (available_methods_by_cap (method_counts s))"
  have unfold: "cap_check R m s =
     (if c \<ge> min (max_attempts cfg) MAX_GLOBAL_ATTEMPTS then
        (if alt_avail \<noteq> [] then
           (case weights_of alt_avail of
              Inl e \<Rightarrow> Inl e
            | Inr alt_weights \<Rightarrow>
                (case weighted_choice_key R alt_weights (rng_state s) of
                   Inl e \<Rightarrow> Inl e
                 | Inr (m', g') \<Rightarrow> Inr (Some (m', s\<lparr>current_method := m', rng_state := g'\<rparr>))))
         else Inr None)
      else Inr (Some (m, s)))"
    using cfg c(1) by (simp add: cap_check_def Let_def alt_avail_def)
  show ?thesis
  proof (cases "c \<ge> min (max_attempts cfg) MAX_GLOBAL_ATTEMPTS")
    case False
    then have lt: "c < cap_of m" using cfg by (simp add: cap_of_def not_le)
    have "s = s\<lparr>current_method := m, rng_state := rng_state s\<rparr>" using cur by simp
    then have "cap_check R m s = Inr (Some (m, s\<lparr>current_method := m, rng_state := rng_state s\<rparr>))"
      using unfold False by simp
    with conf c lt show ?thesis by blast
  next
    case True
    show ?thesis
    proof (cases "alt_avail = []")
      case True
      with unfold \<open>c \<ge> min (max_attempts cfg) MAX_GLOBAL_ATTEMPTS\<close> show ?thesis by simp
    next
      case False
      have sub: "set alt_avail \<subseteq> set (available_methods_by_cap (method_counts s))"
        unfolding alt_avail_def by (rule set_remove1_subset)
      then have confs: "\<forall>x \<in> set alt_avail. configured x"
        using available_configured by blast
      from weights_of_ok [OF confs] obtain ws where ws:
        "weights_of alt_avail = Inr ws" "map fst ws = alt_avail" "\<forall>w \<in> set (map snd ws). 0 < w"
        by blast
      from False ws(2) have "ws \<noteq> []" by auto
      from weighted_choice_key_pos [OF this ws(3), of R "rng_state s"] obtain k where
        k: "weighted_choice_key R ws (rng_state s) = Inr (k, snd (rng_random R (rng_state s)))"
           "k \<in> set (map fst ws)" by blast
      from k(2) ws(2) have kin: "k \<in> set alt_avail" by simp
      with confs have kc: "configured k" by blast
      from kin sub have "dict_get (method_counts s) k 0 < cap_of k"
        using available_under_cap by blast
      moreover from counts_okD [OF ok kc] obtain ck where
        ck: "method_counts s k = Some ck" "0 \<le> ck" by blast
      ultimately have "ck < cap_of k" by (simp add: dict_get_def)
      moreover have "cap_check R m s =
          Inr (Some (k, s\<lparr>current_method := k, rng_state := snd (rng_random R (rng_state s))\<rparr>))"
        using unfold True False ws(1) k(1) by simp
      ultimately show ?thesis using kc ck by blast
    qed
  qed
qed

lemma record_attempt_step:
  assumes np: "\<not> paid s0" and conf: "configured m"
    and c: "method_counts s0 m = Some c" "0 \<le> c" "c < cap_of m"
    and st: "map_of st ''paid'' = Some p" "map_of st ''failed'' = Some f"
  shows "\<exists>fl. record_attempt R mt st order t m (s0\<lparr>current_method := m, rng_state := g1\<rparr>) = Inr fl
           \<and> attempt_step mt p f order t s0 fl"
proof -
  from configured_cfg [OF conf] obtain cfg where cfg: "map_of PAYMENT_METHOD_CONFIG m = Some cfg"
    by blast
  define g2 where "g2 = snd (rng_random R g1)"
  show ?thesis
  proof (cases "map_of mt m")
    case None
    have "record_attempt R mt st order t m (s0\<lparr>current_method := m, rng_state := g1\<rparr>) =
        Inr (Next (s0\<lparr>current_method := m, method_counts := (method_counts s0)(m \<mapsto> c + 1),
                attempt_no := attempt_no s0 + 1, rng_state := g2\<rparr>))"
      using cfg None c(1) by (simp add: record_attempt_def Let_def dict_get_def g2_def)
    moreover have "attempt_step mt p f order t s0
        (Next (s0\<lparr>current_method := m, method_counts := (method_counts s0)(m \<mapsto> c + 1),
                attempt_no := attempt_no s0 + 1, rng_state := g2\<rparr>))"
      by (rule attempt_step.skipped [OF np conf c None])
    ultimately show ?thesis by blast
  next
    case (Some i)
    show ?thesis
    proof (cases "fst (rng_random R g1) < success_rate cfg")
      case True
      have "record_attempt R mt st order t m (s0\<lparr>current_method := m, rng_state := g1\<rparr>) =
        Inr (Break (s0\<lparr>current_method := m, method_counts := (method_counts s0)(m \<mapsto> c + 1),
                 attempt_no := attempt_no s0 + 1, rng_state := g2,
                 rows := rows s0 @
                   [\<lparr>row_order_id = order_id order, row_attempt_no = attempt_no s0 + 1,
                     row_payment_date = t, row_amount_paid = order_total order,
                     row_payment_method_id = i, row_payment_status_id = p\<rparr>],
                 paid := True\<rparr>))"
        using cfg Some c(1) True st by (simp add: record_attempt_def Let_def dict_get_def g2_def)
      moreover note attempt_step.succeeded [OF np conf c Some, of p f order t g2]
      ultimately show ?thesis by blast
    next
      case False
      have "record_attempt R mt st order t m (s0\<lparr>current_method := m, rng_state := g1\<rparr>) =
        Inr (Next (s0\<lparr>current_method := m, method_counts := (method_counts s0)(m \<mapsto> c + 1),
                attempt_no := attempt_no s0 + 1, rng_state := g2,
                rows := rows s0 @
                  [\<lparr>row_order_id = order_id order, row_attempt_no = attempt_no s0 + 1,
                    row_payment_date = t, row_amount_paid = 0,
                    row_payment_method_id = i, row_payment_status_id = f\<rparr>]\<rparr>))"
        using cfg Some c(1) False st by (simp add: record_attempt_def Let_def dict_get_def g2_def)
      moreover note attempt_step.failed [OF np conf c Some, of p f order t g2]
      ultimately show ?thesis by blast
    qed
  qed
qed

lemma attempt_body_step:
  assumes conf: "configured (current_method s)" and ok: "counts_ok (method_counts s)"
    and st: "map_of st ''paid'' = Some p" "map_of st ''failed'' = Some f"
  shows "\<exists>fl. attempt_body R mt st order t s = Inr fl \<and> attempt_step mt p f order t s fl"
proof (cases "paid s")
  case True
  then have "attempt_body R mt st order t s = Inr (Break s)" by (simp add: attempt_body_def)
  with True show ?thesis using attempt_step.already_paid by blast
next
  case False
  from choose_method_ok [OF conf, of R] obtain m g1 where
    ch: "choose_method R s = Inr (m, s\<lparr>current_method := m, rng_state := g1\<rparr>)"
    and cm: "configured m" by blast
  define s1 where "s1 = s\<lparr>current_method := m, rng_state := g1\<rparr>"
  have s1: "counts_ok (method_counts s1)" "current_method s1 = m" using ok by (simp_all add: s1_def)
  from cap_check_ok [OF s1(1) cm s1(2), of R]
  show ?thesis
  proof
    assume "cap_check R m s1 = Inr None"
    then have "attempt_body R mt st order t s = Inr (Break s1)"
      using False ch by (simp add: attempt_body_def s1_def)
    moreover have "attempt_step mt p f order t s (Break s1)"
      unfolding s1_def by (rule attempt_step.no_method [OF False cm])
    ultimately show ?thesis by blast
  next
    assume "\<exists>m' g' c. cap_check R m s1 = Inr (Some (m', s1\<lparr>current_method := m', rng_state := g'\<rparr>))
            \<and> configured m' \<and> method_counts s1 m' = Some c \<and> 0 \<le> c \<and> c < cap_of m'"
    then obtain m' g' c where
      cc: "cap_check R m s1 = Inr (Some (m', s1\<lparr>current_method := m', rng_state := g'\<rparr>))"
      and cm': "configured m'" and c: "method_counts s m' = Some c" "0 \<le> c" "c < cap_of m'"
      by (auto simp: s1_def)
    have eq: "s1\<lparr>current_method := m', rng_state := g'\<rparr> = s\<lparr>current_method := m', rng_state := g'\<rparr>"
      by (simp add: s1_def)
    from record_attempt_step [OF False cm' c st, of R mt order t g'] obtain fl where
      fl: "record_attempt R mt st order t m' (s\<lparr>current_method := m', rng_state := g'\<rparr>) = Inr fl"
          "attempt_step mt p f order t s fl" by blast
    have "attempt_body R mt st order t s = Inr fl"
      using False ch cc fl(1) eq by (simp add: attempt_body_def s1_def)
    with fl(2) show ?thesis by blast
  qed
qed

lemma counts_ok_update:
  assumes "counts_ok mc" and "mc m = Some c" and "0 \<le> c" and "c < cap_of m"
  shows "counts_ok (mc(m \<mapsto> c + 1))"
  using assms unfolding counts_ok_def list_all_iff by (auto split: option.splits)

lemma attempt_step_state_ok:
  assumes "attempt_step mt p f order t s fl" and "state_ok s"
  shows "state_ok (flow_state fl)"
  using assms
  by (cases rule: attempt_step.cases) (auto simp: state_ok_def intro: counts_ok_update)

lemma attempt_loop_invariant:
  assumes st: "map_of st ''paid'' = Some p" "map_of st ''failed'' = Some f"
    and step: "\<And>s t fl. P s \<Longrightarrow> state_ok s \<Longrightarrow> attempt_step mt p f order t s fl \<Longrightarrow>
                 P (flow_state fl)"
    and init: "P s" "state_ok s"
  shows "\<exists>s'. attempt_loop R mt st order ts s = Inr s' \<and> P s' \<and> state_ok s'"
  using init
proof (induction ts arbitrary: s)
  case Nil
  then show ?case by simp
next
  case (Cons t ts)
  from Cons.prems(2) have "configured (current_method s)" "counts_ok (method_counts s)"
    by (simp_all add: state_ok_def)
  from attempt_body_step [OF this st, of R mt order t] obtain fl where
    fl: "attempt_body R mt st order t s = Inr fl" "attempt_step mt p f order t s fl" by blast
  have P': "P (flow_state fl)" by (rule step [OF Cons.prems fl(2)])
  have ok': "state_ok (flow_state fl)" by (rule attempt_step_state_ok [OF fl(2) Cons.prems(2)])
  show ?case
  proof (cases fl)
    case (Break s')
    then show ?thesis using fl(1) P' ok' by simp
  next
    case (Next s')
    with P' ok' have "P s'" "state_ok s'" by simp_all
    from Cons.IH [OF this] show ?thesis using fl(1) Next by simp
  qed
qed

lemma attempt_step_rows_ok:
  assumes "attempt_step mt p f order t s fl" and "rows_ok p f order s" and "state_ok s"
  shows "rows_ok p f order (flow_state fl)"
  using assms
proof (cases rule: attempt_step.cases)
  case already_paid
  with assms(2) show ?thesis by simp
next
  case (no_method m g')
  with assms(2) show ?thesis by (simp add: rows_ok_def)
next
  case (skipped m c g')
  with assms(2) show ?thesis by (fastforce simp: rows_ok_def)
next
  case (failed m c i g')
  from assms(3) have n: "0 \<le> attempt_no s" by (simp add: state_ok_def)
  from assms(2) failed(2) have old:
    "\<forall>r \<in> set (rows s). row_order_id r = order_id order \<and> 1 \<le> row_attempt_no r
          \<and> row_attempt_no r \<le> attempt_no s"
    "sorted_wrt (<) (map row_attempt_no (rows s))"
    "\<forall>x \<in> set (rows s). failed_row f x"
    by (simp_all add: rows_ok_def)
  show ?thesis
    unfolding failed(1) using old n failed(2)
    by (auto simp: rows_ok_def sorted_wrt_append failed_row_def)
next
  case (succeeded m c i g')
  from assms(3) have n: "0 \<le> attempt_no s" by (simp add: state_ok_def)
  from assms(2) succeeded(2) have old:
    "\<forall>r \<in> set (rows s). row_order_id r = order_id order \<and> 1 \<le> row_attempt_no r
          \<and> row_attempt_no r \<le> attempt_no s"
    "sorted_wrt (<) (map row_attempt_no (rows s))"
    "\<forall>x \<in> set (rows s). failed_row f x"
    by (simp_all add: rows_ok_def)
  show ?thesis
    unfolding succeeded(1) using old n
    by (auto simp: rows_ok_def sorted_wrt_append paid_row_def)
qed

lemma all_methods_knownD: "all_methods_known mt \<Longrightarrow> configured m \<Longrightarrow> map_of mt m \<noteq> None"
  unfolding all_methods_known_def configured_def list_all_iff by blast

lemma attempt_step_gapless:
  assumes "attempt_step mt p f order t s fl" and "gapless s" and "state_ok s"
    and known: "all_methods_known mt"
  shows "gapless (flow_state fl)"
  using assms(1)
proof (cases rule: attempt_step.cases)
  case already_paid
  with assms(2) show ?thesis by simp
next
  case (no_method m g')
  with assms(2) show ?thesis by (simp add: gapless_def)
next
  case (skipped m c g')
  with all_methods_knownD [OF known] show ?thesis by blast
next
  case (failed m c i g')
  from assms(3) have "1 \<le> attempt_no s + 1" by (simp add: state_ok_def)
  from upto_rec2 [OF this] assms(2) show ?thesis
    unfolding failed(1) by (simp add: gapless_def)
next
  case (succeeded m c i g')
  from assms(3) have "1 \<le> attempt_no s + 1" by (simp add: state_ok_def)
  from upto_rec2 [OF this] assms(2) show ?thesis
    unfolding succeeded(1) by (simp add: gapless_def)
qed

lemma method_ids_distinctD:
  assumes "method_ids_distinct mt" and "configured m" and "configured m'"
    and "map_of mt m = Some i" and "map_of mt m' = Some i"
  shows "m = m'"
proof -
  have inj: "\<And>ks. distinct (List.map_filter (map_of mt) ks) \<Longrightarrow> m \<in> set ks \<Longrightarrow> m' \<in> set ks
               \<Longrightarrow> m = m'"
  proof -
    fix ks
    show "distinct (List.map_filter (map_of mt) ks) \<Longrightarrow> m \<in> set ks \<Longrightarrow> m' \<in> set ks \<Longrightarrow> m = m'"
    proof (induction ks)
      case Nil
      then show ?case by simp
    next
      case (Cons k ks)
      have mem: "\<And>x. x \<in> set ks \<Longrightarrow> map_of mt x = Some i \<Longrightarrow>
                   i \<in> set (List.map_filter (map_of mt) ks)"
        by (force simp: map_filter_def)
      show ?case
      proof (cases "map_of mt k")
        case None
        with Cons assms(4,5) show ?thesis by (auto simp: map_filter_simps)
      next
        case (Some j)
        with Cons.prems(1) have d: "j \<notin> set (List.map_filter (map_of mt) ks)"
          "distinct (List.map_filter (map_of mt) ks)" by (simp_all add: map_filter_simps)
        show ?thesis
        proof (cases "m = k")
          case True
          with Some assms(4) have "j = i" by simp
          with d(1) mem [OF _ assms(5)] have "m' \<notin> set ks" by blast
          with Cons.prems(3) True show ?thesis by simp
        next
          case False
          with Cons.prems(2) have mk: "m \<in> set ks" by simp
          show ?thesis
          proof (cases "m' = k")
            case True
            with Some assms(5) have "j = i" by simp
            with d(1) mem [OF mk assms(4)] show ?thesis by blast
          next
            case False
            with Cons.prems(3) have "m' \<in> set ks" by simp
            from Cons.IH [OF d(2) mk this] show ?thesis .
          qed
        qed
      qed
    qed
  qed
  from assms(1,2,3) show ?thesis
    unfolding method_ids_distinct_def configured_def by (rule inj)
qed

lemma attempt_step_rows_within_counts:
  assumes "attempt_step mt p f order t s fl" and "rows_within_counts mt s"
    and inj: "method_ids_distinct mt"
  shows "rows_within_counts mt (flow_state fl)"
  using assms(1)
proof (cases rule: attempt_step.cases)
  case already_paid
  with assms(2) show ?thesis by simp
next
  case (no_method m g')
  with assms(2) show ?thesis by (simp add: rows_within_counts_def)
next
  case (skipped m c g')
  from skipped(4) have "dict_get (method_counts s) m 0 = c" by (simp add: dict_get_def)
  with assms(2) show ?thesis
    unfolding skipped(1) by (fastforce simp: rows_within_counts_def dict_get_def)
next
  case (failed m c i g')
  have c: "dict_get (method_counts s) m 0 = c" using failed(4) by (simp add: dict_get_def)
  show ?thesis
    unfolding failed(1) rows_within_counts_def
  proof (intro allI impI)
    fix m' i' assume a: "configured m' \<and> map_of mt m' = Some i'"
    with assms(2) have old:
      "int (length (filter (\<lambda>r. row_payment_method_id r = i') (rows s)))
         \<le> dict_get (method_counts s) m' 0"
      by (simp add: rows_within_counts_def)
    show "int (length (filter (\<lambda>r. row_payment_method_id r = i')
            (rows (flow_state (Next (s\<lparr>current_method := m,
                method_counts := (method_counts s)(m \<mapsto> c + 1),
                attempt_no := attempt_no s + 1, rng_state := g',
                rows := rows s @
                  [\<lparr>row_order_id = order_id order, row_attempt_no = attempt_no s + 1,
                    row_payment_date = t, row_amount_paid = 0,
                    row_payment_method_id = i, row_payment_status_id = f\<rparr>]\<rparr>))))))
          \<le> dict_get (method_counts (flow_state (Next (s\<lparr>current_method := m,
                method_counts := (method_counts s)(m \<mapsto> c + 1),
                attempt_no := attempt_no s + 1, rng_state := g',
                rows := rows s @
                  [\<lparr>row_order_id = order_id order, row_attempt_no = attempt_no s + 1,
                    row_payment_date = t, row_amount_paid = 0,
                    row_payment_method_id = i, row_payment_status_id = f\<rparr>]\<rparr>)))) m' 0"
    proof (cases "m' = m")
      case True
      with old c show ?thesis by (simp add: dict_get_def)
    next
      case False
      with method_ids_distinctD [OF inj failed(3) _ failed(7)] a have "i' \<noteq> i" by blast
      with old False show ?thesis by (simp add: dict_get_def)
    qed
  qed
next
  case (succeeded m c i g')
  have c: "dict_get (method_counts s) m 0 = c" using succeeded(4) by (simp add: dict_get_def)
  show ?thesis
    unfolding succeeded(1) rows_within_counts_def
  proof (intro allI impI)
    fix m' i' assume a: "configured m' \<and> map_of mt m' = Some i'"
    with assms(2) have old:
      "int (length (filter (\<lambda>r. row_payment_method_id r = i') (rows s)))
         \<le> dict_get (method_counts s) m' 0"
      by (simp add: rows_within_counts_def)
    show "int (length (filter (\<lambda>r. row_payment_method_id r = i')
            (rows (flow_state (Break (s\<lparr>current_method := m,
                method_counts := (method_counts s)(m \<mapsto> c + 1),
                attempt_no := attempt_no s + 1, rng_state := g',
                rows := rows s @
                  [\<lparr>row_order_id = order_id order, row_attempt_no = attempt_no s + 1,
                    row_payment_date = t, row_amount_paid = order_total order,
                    row_payment_method_id = i, row_payment_status_id = p\<rparr>],
                paid := True\<rparr>))))))
          \<le> dict_get (method_counts (flow_state (Break (s\<lparr>current_method := m,
                method_counts := (method_counts s)(m \<mapsto> c + 1),
                attempt_no := attempt_no s + 1, rng_state := g',
                rows := rows s @
                  [\<lparr>row_order_id = order_id order, row_attempt_no = attempt_no s + 1,
                    row_payment_date = t, row_amount_paid = order_total order,
                    row_payment_method_id = i, row_payment_status_id = p\<rparr>],
                paid := True\<rparr>)))) m' 0"
    proof (cases "m' = m")
      case True
      with old c show ?thesis by (simp add: dict_get_def)
    next
      case False
      with method_ids_distinctD [OF inj succeeded(3) _ succeeded(7)] a have "i' \<noteq> i" by blast
      with old False show ?thesis by (simp add: dict_get_def)
    qed
  qed
qed

lemma GLOBAL_ATTEMPT_WEIGHTS_eq:
  "GLOBAL_ATTEMPT_WEIGHTS = Inr [(1, 45 / 100), (2, 32 / 100), (3, 18 / 100), (4, 5 / 100)]"
  by (simp add: GLOBAL_ATTEMPT_WEIGHTS_def GLOBAL_ATTEMPT_DIST_def normalize_distribution_def)

lemma draw_total_attempts_planned_ok:
  "\<exists>n. draw_total_attempts_planned R g = Inr (n, snd (rng_random R g)) \<and> 1 \<le> n \<and> n \<le> 4"
proof -
  let ?ws = "[(1, 45 / 100), (2, 32 / 100), (3, 18 / 100), (4, 5 / 100)] :: (int \<times> real) list"
  have "?ws \<noteq> []" "\<forall>w \<in> set (map snd ?ws). 0 < w" by simp_all
  from weighted_choice_key_pos [OF this, of R g] obtain k where
    k: "weighted_choice_key R ?ws g = Inr (k, snd (rng_random R g))" "k \<in> set (map fst ?ws)"
    by blast
  from k(2) have "1 \<le> k \<and> k \<le> 4" by auto
  then show ?thesis
    using k(1) by (simp add: draw_total_attempts_planned_def GLOBAL_ATTEMPT_WEIGHTS_eq
        MAX_GLOBAL_ATTEMPTS_def)
qed

lemma initial_method_ok:
  "\<exists>m. weighted_choice_key R build_method_weights g = Inr (m, snd (rng_random R g))
       \<and> configured m"
proof -
  have ne: "build_method_weights \<noteq> []"
    by (simp add: build_method_weights_def PAYMENT_METHOD_CONFIG_def)
  have pos: "\<forall>w \<in> set (map snd build_method_weights). 0 < w"
    by (simp add: build_method_weights_def PAYMENT_METHOD_CONFIG_def)
  have keys: "map fst build_method_weights = map fst PAYMENT_METHOD_CONFIG"
    by (simp add: build_method_weights_def PAYMENT_METHOD_CONFIG_def)
  from weighted_choice_key_pos [OF ne pos, of R g] keys show ?thesis
    by (auto simp: configured_def)
qed

lemma initial_counts_ok:
  "counts_ok (map_of (map (\<lambda>(m, cfg). (m, 0)) PAYMENT_METHOD_CONFIG))"
  by (simp add: counts_ok_def PAYMENT_METHOD_CONFIG_def cap_of_def MAX_GLOBAL_ATTEMPTS_def)

lemma initial_state_ok:
  assumes "configured m"
  shows "state_ok (initial_state m g)" "rows_ok p f order (initial_state m g)"
    "gapless (initial_state m g)" "rows_within_counts mt (initial_state m g)"
proof -
  show "state_ok (initial_state m g)"
    using assms initial_counts_ok by (simp add: state_ok_def initial_state_def)
  show "rows_ok p f order (initial_state m g)" by (simp add: rows_ok_def initial_state_def)
  show "gapless (initial_state m g)" by (simp add: gapless_def initial_state_def)
  show "rows_within_counts mt (initial_state m g)"
  proof -
    have "\<And>x. configured x \<Longrightarrow>
        dict_get (map_of (map (\<lambda>(m, cfg). (m, 0 :: int)) PAYMENT_METHOD_CONFIG)) x 0 = 0"
      by (auto simp: dict_get_def split: option.splits dest!: map_of_SomeD)
    then show ?thesis by (auto simp: rows_within_counts_def initial_state_def)
  qed
qed

lemma attempt_loop_result:
  assumes st: "map_of st ''paid'' = Some p" "map_of st ''failed'' = Some f"
    and init: "loop_inv mt p f order s" "state_ok s"
  shows "\<exists>s'. attempt_loop R mt st order ts s = Inr s' \<and> loop_inv mt p f order s' \<and> state_ok s'"
proof (rule attempt_loop_invariant [where P = "loop_inv mt p f order", OF st _ init])
  fix s :: "'a attempt_state" and t fl
  assume P: "loop_inv mt p f order s" and ok: "state_ok s"
    and step: "attempt_step mt p f order t s fl"
  show "loop_inv mt p f order (flow_state fl)"
    using P attempt_step_rows_ok [OF step _ ok] attempt_step_gapless [OF step _ ok]
      attempt_step_rows_within_counts [OF step]
    by (auto simp: loop_inv_def)
qed

lemma force_success_cases:
  assumes st: "map_of st ''paid'' = Some p" and mt: "mt \<noteq> []"
  shows "\<exists>forced s'. force_success mt st order ts s = Inr s' \<and> rows s' = rows s @ forced
           \<and> rng_state s' = rng_state s \<and> forced_ok p order s forced"
proof (cases "paid s \<or> order_status order = 5")
  case True
  then have "force_success mt st order ts s = Inr s" by (auto simp: force_success_def)
  with True show ?thesis by (simp add: forced_ok_def)
next
  case False
  obtain method_id where mid:
    "(case map_of mt (current_method s) of
        Some i \<Rightarrow> Inr i
      | None \<Rightarrow> (case mt of [] \<Rightarrow> Inl StopIteration | (c, i) # rest \<Rightarrow> Inr i)) = Inr method_id"
    using mt by (cases "map_of mt (current_method s)"; cases mt) auto
  define t_force where "t_force = (if ts \<noteq> [] then last ts + 1 else order_date order + 1)"
  define r where "r = \<lparr>row_order_id = order_id order, row_attempt_no = attempt_no s + 1,
       row_payment_date = t_force, row_amount_paid = order_total order,
       row_payment_method_id = method_id, row_payment_status_id = p\<rparr>"
  have "force_success mt st order ts s =
      Inr (s\<lparr>attempt_no := attempt_no s + 1, rows := rows s @ [r]\<rparr>)"
    using False mid st by (simp add: force_success_def Let_def t_force_def r_def)
  moreover have "forced_ok p order s [r]"
    using False by (simp add: forced_ok_def r_def paid_row_def)
  ultimately show ?thesis by simp
qed

lemma process_order_result:
  fixes R :: "'g rng"
  assumes st: "map_of st ''paid'' = Some p" "map_of st ''failed'' = Some f"
    and mt: "mt \<noteq> []"
    and returns: "process_order R mt st order g \<noteq> None"
  shows "\<exists>(s :: 'g attempt_state) forced g'.
           process_order R mt st order g = Some (Inr (rows s @ forced, g'))
           \<and> state_ok s \<and> loop_inv mt p f order s \<and> forced_ok p order s forced"
proof -
  from draw_total_attempts_planned_ok [of R g] obtain n where
    n: "draw_total_attempts_planned R g = Inr (n, snd (rng_random R g))" by blast
  define g1 where "g1 = snd (rng_random R g)"
  from returns n obtain ts g2 where ts: "sorted_attempt_times R (order_date order) n g1 = Some (ts, g2)"
    by (auto simp: process_order_def g1_def split: option.splits)
  from initial_method_ok [of R g2] obtain m where
    m: "weighted_choice_key R build_method_weights g2 = Inr (m, snd (rng_random R g2))"
       "configured m" by blast
  define g3 where "g3 = snd (rng_random R g2)"
  have init: "loop_inv mt p f order (initial_state m g3)" "state_ok (initial_state m g3)"
    using initial_state_ok(1) [OF m(2), of g3] initial_state_ok(2) [OF m(2), of p f order g3]
      initial_state_ok(3) [OF m(2), of g3] initial_state_ok(4) [OF m(2), of mt g3]
    by (simp_all add: loop_inv_def)
  from attempt_loop_result [OF st init, of R ts] obtain s where
    s: "attempt_loop R mt st order ts (initial_state m g3) = Inr s"
       "loop_inv mt p f order s" "state_ok s" by blast
  from force_success_cases [OF st(1) mt, of order ts s] obtain forced s' where
    f: "force_success mt st order ts s = Inr s'" "rows s' = rows s @ forced"
       "forced_ok p order s forced" by blast
  have "process_order R mt st order g = Some (Inr (rows s @ forced, rng_state s'))"
    using n ts m(1) s(1) f(1) f(2)
    by (simp add: process_order_def g1_def g3_def initial_state_def)
  with s(2,3) f(3) show ?thesis by blast
qed

lemma length_upto_int: "0 \<le> n \<Longrightarrow> int (length [1..n]) = n"
  by simp

lemma process_order_rows_ok:
  fixes R :: "'g rng"
  assumes st: "map_of st ''paid'' = Some p" "map_of st ''failed'' = Some f"
    and mt: "mt \<noteq> []"
    and returns: "process_order R mt st order g \<noteq> None"
  shows "\<exists>rs g'. process_order R mt st order g = Some (Inr (rs, g'))
           \<and> order_rows_ok mt p f order rs"
proof -
  from process_order_result [OF st mt returns] obtain s :: "'g attempt_state" and forced g' where
    res: "process_order R mt st order g = Some (Inr (rows s @ forced, g'))"
    and ok: "state_ok s" and inv: "loop_inv mt p f order s" and fo: "forced_ok p order s forced"
    by blast
  from inv have ro: "rows_ok p f order s" by (simp add: loop_inv_def)
  from ok have n0: "0 \<le> attempt_no s" by (simp add: state_ok_def)
  from ro have bounds: "\<forall>r \<in> set (rows s). row_order_id r = order_id order
      \<and> 1 \<le> row_attempt_no r \<and> row_attempt_no r \<le> attempt_no s"
    and sorted: "sorted_wrt (<) (map row_attempt_no (rows s))"
    by (simp_all add: rows_ok_def)
  have fcases: "forced = [] \<or> (\<exists>r. forced = [r] \<and> row_order_id r = order_id order
             \<and> row_attempt_no r = attempt_no s + 1 \<and> paid_row p order r \<and> \<not> paid s
             \<and> order_status order \<noteq> 5)"
    using fo by (auto simp: forced_ok_def split: if_splits)
  have a: "\<forall>r \<in> set (rows s @ forced). row_order_id r = order_id order \<and> 1 \<le> row_attempt_no r"
    using bounds fcases n0 by auto
  have b: "sorted_wrt (<) (map row_attempt_no (rows s @ forced))"
    using sorted bounds fcases by (auto simp: sorted_wrt_append)
  have c: "all_methods_known mt \<longrightarrow>
      map row_attempt_no (rows s @ forced) = [1..int (length (rows s @ forced))]"
  proof
    assume "all_methods_known mt"
    with inv have g: "map row_attempt_no (rows s) = [1..attempt_no s]"
      by (simp add: loop_inv_def gapless_def)
    then have "length (rows s) = length [1..attempt_no s]" by (metis length_map)
    then have len: "int (length (rows s)) = attempt_no s" using n0 by simp
    from fcases show "map row_attempt_no (rows s @ forced) = [1..int (length (rows s @ forced))]"
    proof
      assume "forced = []"
      with g len show ?thesis by simp
    next
      assume "\<exists>r. forced = [r] \<and> row_order_id r = order_id order
             \<and> row_attempt_no r = attempt_no s + 1 \<and> paid_row p order r \<and> \<not> paid s
             \<and> order_status order \<noteq> 5"
      then obtain r where r: "forced = [r]" "row_attempt_no r = attempt_no s + 1" by blast
      have "1 \<le> attempt_no s + 1" using n0 by simp
      from upto_rec2 [OF this] have u: "[1..attempt_no s + 1] = [1..attempt_no s] @ [attempt_no s + 1]"
        by simp
      have l: "int (length (rows s @ forced)) = attempt_no s + 1" using len r(1) by simp
      show ?thesis unfolding l u using g r by simp
    qed
  qed
  have d: "\<exists>fs. (\<forall>x \<in> set fs. failed_row f x) \<and>
            ((order_status order = 5 \<and> rows s @ forced = fs)
             \<or> (\<exists>r. rows s @ forced = fs @ [r] \<and> paid_row p order r))"
  proof (cases "paid s")
    case True
    with ro obtain fs r where "rows s = fs @ [r]" "paid_row p order r" "\<forall>x \<in> set fs. failed_row f x"
      by (auto simp: rows_ok_def)
    moreover from True fo have "forced = []" by (simp add: forced_ok_def)
    ultimately show ?thesis by auto
  next
    case False
    with ro have allf: "\<forall>x \<in> set (rows s). failed_row f x" by (simp add: rows_ok_def)
    show ?thesis
    proof (cases "order_status order = 5")
      case True
      with fo have "forced = []" by (simp add: forced_ok_def)
      with allf True show ?thesis by auto
    next
      case nc: False
      with False fo obtain r where "forced = [r]" "paid_row p order r"
        by (auto simp: forced_ok_def)
      with allf show ?thesis by auto
    qed
  qed
  have e: "method_ids_distinct mt \<longrightarrow>
            (\<exists>loop_rows forced'. rows s @ forced = loop_rows @ forced' \<and> length forced' \<le> 1
               \<and> (order_status order = 5 \<longrightarrow> forced' = [])
               \<and> (\<forall>m i. configured m \<and> map_of mt m = Some i \<longrightarrow>
                     int (length (filter (\<lambda>r. row_payment_method_id r = i) loop_rows))
                       \<le> cap_of m))"
  proof
    assume "method_ids_distinct mt"
    with inv have w: "rows_within_counts mt s" by (simp add: loop_inv_def)
    from ok have co: "counts_ok (method_counts s)" by (simp add: state_ok_def)
    have caps: "\<forall>m i. configured m \<and> map_of mt m = Some i \<longrightarrow>
        int (length (filter (\<lambda>r. row_payment_method_id r = i) (rows s))) \<le> cap_of m"
    proof (intro allI impI)
      fix m i assume mi: "configured m \<and> map_of mt m = Some i"
      with w have "int (length (filter (\<lambda>r. row_payment_method_id r = i) (rows s)))
          \<le> dict_get (method_counts s) m 0" by (simp add: rows_within_counts_def)
      moreover from counts_okD [OF co] mi have "dict_get (method_counts s) m 0 \<le> cap_of m"
        by (fastforce simp: dict_get_def)
      ultimately show "int (length (filter (\<lambda>r. row_payment_method_id r = i) (rows s))) \<le> cap_of m"
        by simp
    qed
    have "length forced \<le> 1" "order_status order = 5 \<longrightarrow> forced = []"
      using fcases by auto
    with caps show "\<exists>loop_rows forced'. rows s @ forced = loop_rows @ forced' \<and> length forced' \<le> 1
               \<and> (order_status order = 5 \<longrightarrow> forced' = [])
               \<and> (\<forall>m i. configured m \<and> map_of mt m = Some i \<longrightarrow>
                     int (length (filter (\<lambda>r. row_payment_method_id r = i) loop_rows))
                       \<le> cap_of m)"
      by blast
  qed
  have "order_rows_ok mt p f order (rows s @ forced)"
    unfolding order_rows_ok_def using a b c d e by (intro conjI)
  with res show ?thesis by blast
qed

lemma generate_segments:
  fixes R :: "'g rng"
  assumes st: "map_of st ''paid'' = Some p" "map_of st ''failed'' = Some f"
    and mt: "mt \<noteq> []"
    and returns: "generate R mt st orders acc g \<noteq> None"
  shows "\<exists>segs g'. generate R mt st orders acc g = Some (Inr (acc @ concat segs, g'))
           \<and> list_all2 (order_rows_ok mt p f) orders segs"
  using returns
proof (induction orders arbitrary: acc g)
  case Nil
  then show ?case by simp
next
  case (Cons order orders)
  from Cons.prems have po: "process_order R mt st order g \<noteq> None"
    by (auto split: option.splits)
  from process_order_rows_ok [OF st mt po] obtain rs g1 where
    rs: "process_order R mt st order g = Some (Inr (rs, g1))" "order_rows_ok mt p f order rs"
    by blast
  have step: "generate R mt st (order # orders) acc g = generate R mt st orders (acc @ rs) g1"
    using rs(1) by simp
  with Cons.prems have "generate R mt st orders (acc @ rs) g1 \<noteq> None" by simp
  from Cons.IH [OF this] obtain segs g' where
    segs: "generate R mt st orders (acc @ rs) g1 = Some (Inr ((acc @ rs) @ concat segs, g'))"
          "list_all2 (order_rows_ok mt p f) orders segs" by blast
  have "generate R mt st (order # orders) acc g = Some (Inr (acc @ concat (rs # segs), g'))"
    using step segs(1) by simp
  moreover have "list_all2 (order_rows_ok mt p f) (order # orders) (rs # segs)"
    using rs(2) segs(2) by simp
  ultimately show ?case by blast
qed

lemma filter_order_rows:
  fixes orders :: "OrderInfo list" and segs :: "payment_row list list"
  assumes "list_all2 (\<lambda>order seg. \<forall>r \<in> set seg. row_order_id r = order_id order) orders segs"
    and "distinct (map order_id orders)" and "k < length orders"
  shows "filter (\<lambda>r. row_order_id r = order_id (orders ! k)) (concat segs) = segs ! k"
  using assms
proof (induction orders segs arbitrary: k rule: list_all2_induct)
  case Nil
  then show ?case by simp
next
  case (Cons order orders seg segs)
  have others: "\<And>x. x \<in> set orders \<Longrightarrow>
      filter (\<lambda>r. row_order_id r = order_id x) seg = []"
  proof -
    fix x assume "x \<in> set orders"
    then have "order_id x \<in> order_id ` set orders" by (rule imageI)
    with Cons.prems(1) have "order_id x \<noteq> order_id order" by auto
    with Cons.hyps(1) show "filter (\<lambda>r. row_order_id r = order_id x) seg = []"
      by (auto simp: filter_empty_conv)
  qed
  show ?case
  proof (cases k)
    case 0
    have rest: "filter (\<lambda>r. row_order_id r = order_id order) (concat segs) = []"
    proof -
      have "\<forall>r \<in> set (concat segs). row_order_id r \<in> set (map order_id orders)"
        using Cons.hyps(2) by (induction rule: list_all2_induct) auto
      moreover have "order_id order \<notin> set (map order_id orders)" using Cons.prems(1) by simp
      ultimately have "\<forall>r \<in> set (concat segs). row_order_id r \<noteq> order_id order"
        by metis
      then show ?thesis unfolding filter_empty_conv by blast
    qed
    have "filter (\<lambda>r. row_order_id r = order_id order) seg = seg"
      using Cons.hyps(1) by (simp add: filter_id_conv)
    with rest 0 show ?thesis by simp
  next
    case (Suc j)
    with Cons.prems have j: "j < length orders" "distinct (map order_id orders)" by simp_all
    then have "orders ! j \<in> set orders" by simp
    from others [OF this] Cons.IH [OF j(2) j(1)] Suc show ?thesis by simp
  qed
qed

lemma generate_per_order:
  fixes R :: "'g rng"
  assumes st: "map_of st ''paid'' = Some p" "map_of st ''failed'' = Some f"
    and mt: "mt \<noteq> []"
    and ids: "distinct (map order_id orders)"
    and returns: "generate R mt st orders [] g \<noteq> None"
  shows "\<exists>all_rows g'. generate R mt st orders [] g = Some (Inr (all_rows, g'))
           \<and> (\<forall>order \<in> set orders.
                 order_rows_ok mt p f order
                   (filter (\<lambda>r. row_order_id r = order_id order) all_rows))"
proof -
  from generate_segments [OF st mt returns] obtain segs g' where
    segs: "generate R mt st orders [] g = Some (Inr ([] @ concat segs, g'))"
          "list_all2 (order_rows_ok mt p f) orders segs" by blast
  have own: "list_all2 (\<lambda>order seg. \<forall>r \<in> set seg. row_order_id r = order_id order) orders segs"
    by (rule list_all2_mono [OF segs(2)]) (simp add: order_rows_ok_def)
  have "\<forall>order \<in> set orders.
          order_rows_ok mt p f order (filter (\<lambda>r. row_order_id r = order_id order) (concat segs))"
  proof
    fix order assume "order \<in> set orders"
    then obtain k where k: "k < length orders" "orders ! k = order"
      by (auto simp: in_set_conv_nth)
    from filter_order_rows [OF own ids k(1)] k(2)
    have "filter (\<lambda>r. row_order_id r = order_id order) (concat segs) = segs ! k" by simp
    moreover have "order_rows_ok mt p f order (segs ! k)"
      using list_all2_nthD [OF segs(2) k(1)] k(2) by simp
    ultimately show "order_rows_ok mt p f order
        (filter (\<lambda>r. row_order_id r = order_id order) (concat segs))" by simp
  qed
  with segs(1) show ?thesis by simp
qed

lemma set_fold_insert: "set (fold List.insert vs chosen) = set vs \<union> set chosen"
  by (induction vs arbitrary: chosen) auto

lemma distinct_fold_insert: "distinct chosen \<Longrightarrow> distinct (fold List.insert vs chosen)"
  by (induction vs arbitrary: chosen) auto

lemma fill_chosen_returns:
  "n \<le> int (length (fold List.insert (randint_values R 1 mx g k) chosen)) \<Longrightarrow>
     \<exists>res. fill_chosen R n mx chosen g = Some res"
proof (induction k arbitrary: chosen g)
  case 0
  then show ?case by (subst fill_chosen.simps) simp
next
  case (Suc k)
  show ?case
  proof (cases "int (length chosen) < n")
    case False
    then show ?thesis by (subst fill_chosen.simps) simp
  next
    case True
    from Suc.prems have "n \<le> int (length (fold List.insert
        (randint_values R 1 mx (snd (rng_randint R 1 mx g)) k)
        (List.insert (fst (rng_randint R 1 mx g)) chosen)))" by simp
    from Suc.IH [OF this] show ?thesis using True by (subst fill_chosen.simps) simp
  qed
qed

lemma sorted_attempt_times_returns:
  assumes "eventually_distinct R" and "n \<le> MAX_GLOBAL_ATTEMPTS"
  shows "sorted_attempt_times R base_dt n g \<noteq> None"
proof (cases "n \<le> 0")
  case True
  then show ?thesis by (simp add: sorted_attempt_times_def)
next
  case False
  define mx where "mx = max 1 (PAYMENT_WINDOW_SECONDS - 2)"
  from assms(1) obtain k where
    k: "nat MAX_GLOBAL_ATTEMPTS \<le> card (set (randint_values R 1 mx g k))"
    unfolding eventually_distinct_def mx_def by blast
  have "distinct (fold List.insert (randint_values R 1 mx g k) [])"
    by (rule distinct_fold_insert) simp
  then have "length (fold List.insert (randint_values R 1 mx g k) []) =
      card (set (randint_values R 1 mx g k))"
    using distinct_card [of "fold List.insert (randint_values R 1 mx g k) []"]
    by (simp add: set_fold_insert)
  with k assms(2) have "min n mx \<le> int (length (fold List.insert (randint_values R 1 mx g k) []))"
    by simp
  from fill_chosen_returns [OF this] obtain res where
    "fill_chosen R (min n mx) mx [] g = Some res" by blast
  then show ?thesis
    using False by (cases res) (simp add: sorted_attempt_times_def Let_def mx_def)
qed

lemma process_order_returns:
  assumes "eventually_distinct R"
  shows "process_order R mt st order g \<noteq> None"
proof -
  from draw_total_attempts_planned_ok [of R g] obtain n where
    n: "draw_total_attempts_planned R g = Inr (n, snd (rng_random R g))" "n \<le> 4" by blast
  from n(2) have "n \<le> MAX_GLOBAL_ATTEMPTS" by (simp add: MAX_GLOBAL_ATTEMPTS_def)
  from sorted_attempt_times_returns [OF assms this, of "order_date order" "snd (rng_random R g)"]
  show ?thesis using n(1) by (auto simp: process_order_def split: option.splits)
qed

lemma generate_returns:
  fixes R :: "'g rng"
  assumes "eventually_distinct R"
    and st: "map_of st ''paid'' = Some p" "map_of st ''failed'' = Some f" and mt: "mt \<noteq> []"
  shows "generate R mt st orders acc g \<noteq> None"
proof (induction orders arbitrary: acc g)
  case Nil
  then show ?case by simp
next
  case (Cons order orders)
  from process_order_rows_ok [OF st mt process_order_returns [OF assms(1)], of order g]
  obtain rs g1 where "process_order R mt st order g = Some (Inr (rs, g1))" by blast
  with Cons.IH [of "acc @ rs" g1] show ?case by simp
qed

lemma mod_shift_neq:
  fixes x d m :: int
  assumes "0 < d" and "d < m"
  shows "x mod m \<noteq> (x + d) mod m"
proof
  assume "x mod m = (x + d) mod m"
  then have "(x + d) mod m = x mod m" by simp
  then have "m dvd (x + d) - x" by (simp only: mod_eq_dvd_iff)
  then have "m dvd d" by simp
  with assms show False using zdvd_imp_le [of m d] by simp
qed

lemma counter_rng_eventually_distinct: "eventually_distinct counter_rng"
  unfolding eventually_distinct_def
proof
  fix g :: nat
  define m :: int where "m = max 1 (PAYMENT_WINDOW_SECONDS - 2)"
  have m4: "3 < m" by (simp add: m_def PAYMENT_WINDOW_SECONDS_def)
  define x where "x = int g"
  have vals: "randint_values counter_rng 1 m g (Suc (Suc (Suc (Suc 0)))) =
      [1 + x mod m, 1 + (x + 1) mod m, 1 + (x + 2) mod m, 1 + (x + 3) mod m]"
    by (simp add: counter_rng_def x_def add.commute)
  have n1: "x mod m \<noteq> (x + 1) mod m" "x mod m \<noteq> (x + 2) mod m" "x mod m \<noteq> (x + 3) mod m"
    using m4 by (intro mod_shift_neq; simp)+
  have n2: "(x + 1) mod m \<noteq> (x + 2) mod m" "(x + 1) mod m \<noteq> (x + 3) mod m"
    using mod_shift_neq [of 1 m "x + 1"] mod_shift_neq [of 2 m "x + 1"] m4
    by (simp_all add: add.assoc)
  have n3: "(x + 2) mod m \<noteq> (x + 3) mod m"
    using mod_shift_neq [of 1 m "x + 2"] m4 by (simp add: add.assoc)
  have d: "distinct [1 + x mod m, 1 + (x + 1) mod m, 1 + (x + 2) mod m, 1 + (x + 3) mod m]"
    using n1 n2 n3 by simp
  have "card (set (randint_values counter_rng 1 m g (Suc (Suc (Suc (Suc 0)))))) = 4"
    unfolding vals using distinct_card [OF d] by simp
  then have "nat MAX_GLOBAL_ATTEMPTS
      \<le> card (set (randint_values counter_rng 1 m g (Suc (Suc (Suc (Suc 0))))))"
    by (simp add: MAX_GLOBAL_ATTEMPTS_def)
  then show "\<exists>k. nat MAX_GLOBAL_ATTEMPTS
      \<le> card (set (randint_values counter_rng 1 (max 1 (PAYMENT_WINDOW_SECONDS - 2)) g k))"
    unfolding m_def by blast
qed

subsection \<open>The attempt loop of an order and the forced resolution\<close>

lemma process_order_attempts:
  "process_order R mt st order g =
     (case order_attempts R mt st order g of
        None \<Rightarrow> None
      | Some (Inl e) \<Rightarrow> Some (Inl e)
      | Some (Inr (ts, s)) \<Rightarrow>
          Some (case force_success mt st order ts s of
                  Inl e \<Rightarrow> Inl e
                | Inr s' \<Rightarrow> Inr (rows s', rng_state s')))"
proof (cases "draw_total_attempts_planned R g")
  case (Inl e)
  then show ?thesis by (simp add: process_order_def order_attempts_def)
next
  case (Inr ng)
  obtain n g1 where ng: "ng = (n, g1)" by (cases ng)
  show ?thesis
  proof (cases "sorted_attempt_times R (order_date order) n g1")
    case None
    with Inr ng show ?thesis by (simp add: process_order_def order_attempts_def)
  next
    case (Some tg)
    obtain ts g2 where tg: "tg = (ts, g2)" by (cases tg)
    show ?thesis
    proof (cases "weighted_choice_key R build_method_weights g2")
      case (Inl e)
      with Inr ng Some tg show ?thesis by (simp add: process_order_def order_attempts_def)
    next
      case m: (Inr mg)
      obtain m g3 where mg: "mg = (m, g3)" by (cases mg)
      show ?thesis
        using Inr ng Some tg m mg
        by (cases "attempt_loop R mt st order ts
              \<lparr>current_method = m,
               method_counts = map_of (map (\<lambda>(m, cfg). (m, 0)) PAYMENT_METHOD_CONFIG),
               paid = False, attempt_no = 0, rows = [], rng_state = g3\<rparr>")
           (simp_all add: process_order_def order_attempts_def)
    qed
  qed
qed

lemma attempt_loop_paid_last:
  assumes st: "map_of st ''paid'' = Some p" "map_of st ''failed'' = Some f"
    and init: "\<not> paid s" "state_ok s"
    and loop: "attempt_loop R mt st order ts s = Inr s'"
  shows "paid s' \<longrightarrow> rows s' \<noteq> [] \<and> row_attempt_no (last (rows s')) = attempt_no s'"
proof -
  have "\<exists>s'. attempt_loop R mt st order ts s = Inr s'
      \<and> (paid s' \<longrightarrow> rows s' \<noteq> [] \<and> row_attempt_no (last (rows s')) = attempt_no s')
      \<and> state_ok s'"
  proof (rule attempt_loop_invariant
      [where P = "\<lambda>s. paid s \<longrightarrow> rows s \<noteq> [] \<and> row_attempt_no (last (rows s)) = attempt_no s",
        OF st _ _ init(2)])
    fix s :: "'a attempt_state" and t fl
    assume P: "paid s \<longrightarrow> rows s \<noteq> [] \<and> row_attempt_no (last (rows s)) = attempt_no s"
      and step: "attempt_step mt p f order t s fl"
    from step P show "paid (flow_state fl) \<longrightarrow> rows (flow_state fl) \<noteq> []
        \<and> row_attempt_no (last (rows (flow_state fl))) = attempt_no (flow_state fl)"
      by (cases rule: attempt_step.cases) auto
  next
    show "paid s \<longrightarrow> rows s \<noteq> [] \<and> row_attempt_no (last (rows s)) = attempt_no s"
      using init(1) by simp
  qed
  with loop show ?thesis by simp
qed

lemma order_attempts_result:
  fixes R :: "'g rng"
  assumes st: "map_of st ''paid'' = Some p" "map_of st ''failed'' = Some f"
    and returns: "order_attempts R mt st order g \<noteq> None"
  shows "\<exists>ts (s :: 'g attempt_state). order_attempts R mt st order g = Some (Inr (ts, s))
           \<and> rows_ok p f order s
           \<and> (paid s \<longrightarrow> rows s \<noteq> [] \<and> row_attempt_no (last (rows s)) = attempt_no s)"
proof -
  from draw_total_attempts_planned_ok [of R g] obtain n where
    n: "draw_total_attempts_planned R g = Inr (n, snd (rng_random R g))" by blast
  define g1 where "g1 = snd (rng_random R g)"
  from returns n obtain ts g2 where ts: "sorted_attempt_times R (order_date order) n g1 = Some (ts, g2)"
    by (auto simp: order_attempts_def g1_def split: option.splits)
  from initial_method_ok [of R g2] obtain m where
    m: "weighted_choice_key R build_method_weights g2 = Inr (m, snd (rng_random R g2))"
       "configured m" by blast
  define g3 where "g3 = snd (rng_random R g2)"
  have init: "loop_inv mt p f order (initial_state m g3)" "state_ok (initial_state m g3)"
    using initial_state_ok(1) [OF m(2), of g3] initial_state_ok(2) [OF m(2), of p f order g3]
      initial_state_ok(3) [OF m(2), of g3] initial_state_ok(4) [OF m(2), of mt g3]
    by (simp_all add: loop_inv_def)
  from attempt_loop_result [OF st init, of R ts] obtain s where
    s: "attempt_loop R mt st order ts (initial_state m g3) = Inr s"
       "loop_inv mt p f order s" by blast
  have np: "\<not> paid (initial_state m g3)" by (simp add: initial_state_def)
  note last = attempt_loop_paid_last [OF st np init(2) s(1)]
  have "order_attempts R mt st order g = Some (Inr (ts, s))"
    using n ts m(1) s(1) by (simp add: order_attempts_def g1_def g3_def initial_state_def)
  with s(2) last show ?thesis by (auto simp: loop_inv_def)
qed

lemma generate_append:
  "generate R mt st (xs @ ys) acc g =
     (case generate R mt st xs acc g of
        None \<Rightarrow> None
      | Some (Inl e) \<Rightarrow> Some (Inl e)
      | Some (Inr (rs, g1)) \<Rightarrow> generate R mt st ys rs g1)"
  by (induction xs arbitrary: acc g) (auto split: option.splits sum.splits)

lemma generate_split:
  fixes R :: "'g rng"
  assumes st: "map_of st ''paid'' = Some p" "map_of st ''failed'' = Some f"
    and mt: "mt \<noteq> []"
    and ids: "distinct (map order_id (pre @ order # post))"
    and returns: "generate R mt st (pre @ order # post) [] g \<noteq> None"
  shows "\<exists>rows_pre g0 rs g1 all_rows g'.
           generate R mt st pre [] g = Some (Inr (rows_pre, g0))
           \<and> process_order R mt st order g0 = Some (Inr (rs, g1))
           \<and> generate R mt st (pre @ order # post) [] g = Some (Inr (all_rows, g'))
           \<and> filter (\<lambda>r. row_order_id r = order_id order) all_rows = rs"
proof -
  from returns have "generate R mt st pre [] g \<noteq> None"
    by (auto simp: generate_append split: option.splits)
  from generate_segments [OF st mt this] obtain segs_pre g0 where
    pre: "generate R mt st pre [] g = Some (Inr ([] @ concat segs_pre, g0))"
         "list_all2 (order_rows_ok mt p f) pre segs_pre" by blast
  from returns pre(1) have r1: "generate R mt st (order # post) (concat segs_pre) g0 \<noteq> None"
    by (simp add: generate_append)
  then have "process_order R mt st order g0 \<noteq> None" by (auto split: option.splits)
  from process_order_rows_ok [OF st mt this] obtain rs g1 where
    rs: "process_order R mt st order g0 = Some (Inr (rs, g1))" "order_rows_ok mt p f order rs"
    by blast
  from r1 rs(1) have "generate R mt st post (concat segs_pre @ rs) g1 \<noteq> None" by simp
  from generate_segments [OF st mt this] obtain segs_post g' where
    post: "generate R mt st post (concat segs_pre @ rs) g1 =
             Some (Inr ((concat segs_pre @ rs) @ concat segs_post, g'))"
          "list_all2 (order_rows_ok mt p f) post segs_post" by blast
  let ?segs = "segs_pre @ rs # segs_post"
  have whole: "generate R mt st (pre @ order # post) [] g = Some (Inr (concat ?segs, g'))"
    using pre(1) rs(1) post(1) by (simp add: generate_append)
  have all2: "list_all2 (order_rows_ok mt p f) (pre @ order # post) ?segs"
    using pre(2) rs(2) post(2) by (simp add: list_all2_appendI)
  have own: "list_all2 (\<lambda>order seg. \<forall>r \<in> set seg. row_order_id r = order_id order)
      (pre @ order # post) ?segs"
    by (rule list_all2_mono [OF all2]) (simp add: order_rows_ok_def)
  have len: "length segs_pre = length pre" using pre(2) by (simp add: list_all2_lengthD)
  have k: "length pre < length (pre @ order # post)" by simp
  from filter_order_rows [OF own ids k]
  have "filter (\<lambda>r. row_order_id r = order_id order) (concat ?segs) = rs"
    using len by (simp add: nth_append)
  with pre(1) rs(1) whole show ?thesis by auto
qed

lemma choose_method_frame:
  assumes "choose_method R s = Inr (m, s1)"
  shows "rows s1 = rows s \<and> paid s1 = paid s \<and> attempt_no s1 = attempt_no s
         \<and> method_counts s1 = method_counts s"
  using assms by (auto simp: choose_method_def split: if_splits sum.splits prod.splits)

lemma cap_check_frame:
  assumes "cap_check R m0 s1 = Inr (Some (m, s2))"
  shows "rows s2 = rows s1 \<and> paid s2 = paid s1 \<and> attempt_no s2 = attempt_no s1
         \<and> method_counts s2 = method_counts s1"
  using assms
  by (auto simp: cap_check_def Let_def split: option.splits if_splits sum.splits prod.splits)

lemma weights_of_keys: "weights_of ms = Inr ws \<Longrightarrow> map fst ws = ms"
  by (induction ms arbitrary: ws) (auto split: option.splits sum.splits)

lemma cap_check_configured:
  assumes "cap_check R m0 s1 = Inr (Some (m, s2))"
  shows "configured m"
proof -
  from assms obtain cfg c where cfg: "map_of PAYMENT_METHOD_CONFIG m0 = Some cfg"
    and c: "method_counts s1 m0 = Some c"
    by (auto simp: cap_check_def split: option.splits)
  show ?thesis
  proof (cases "c \<ge> min (max_attempts cfg) MAX_GLOBAL_ATTEMPTS")
    case False
    with assms cfg c have "m = m0" by (simp add: cap_check_def)
    with cfg show ?thesis by (simp add: cfg_configured)
  next
    case True
    define alt_avail where "alt_avail = remove1 m0 (available_methods_by_cap (method_counts s1))"
    from assms cfg c True obtain alt_weights g' where
      w: "weights_of alt_avail = Inr alt_weights"
      and k: "weighted_choice_key R alt_weights (rng_state s1) = Inr (m, g')"
      by (auto simp: cap_check_def Let_def alt_avail_def split: if_splits sum.splits prod.splits)
    from k have "choices R (map fst alt_weights) (map snd alt_weights) (rng_state s1) = Inr (m, g')"
      by (auto simp: weighted_choice_key_def split: if_splits)
    then have "m \<in> set (map fst alt_weights)" by (rule choices_member)
    with weights_of_keys [OF w] have "m \<in> set alt_avail" by simp
    then have "m \<in> set (available_methods_by_cap (method_counts s1))"
      unfolding alt_avail_def using set_remove1_subset by fast
    then show ?thesis by (rule available_configured)
  qed
qed


lemma process_order_forced:
  fixes R :: "'g rng"
  assumes st: "map_of st ''paid'' = Some p" "map_of st ''failed'' = Some f"
    and mt: "mt \<noteq> []"
    and returns: "process_order R mt st order g \<noteq> None"
  shows "\<exists>ts (s :: 'g attempt_state) rs g'.
           order_attempts R mt st order g = Some (Inr (ts, s))
           \<and> process_order R mt st order g = Some (Inr (rs, g'))
           \<and> rows_ok p f order s
           \<and> (if paid s \<or> order_status order = 5 then rs = rows s
               else \<exists>r. rs = rows s @ [r] \<and> row_attempt_no r = attempt_no s + 1
                      \<and> paid_row p order r)"
proof -
  from returns have "order_attempts R mt st order g \<noteq> None"
    by (auto simp: process_order_attempts split: option.splits)
  from order_attempts_result [OF st this] obtain ts and s :: "'g attempt_state" where
    oa: "order_attempts R mt st order g = Some (Inr (ts, s))" and ro: "rows_ok p f order s"
    by blast
  from force_success_cases [OF st(1) mt, of order ts s] obtain forced s' where
    f: "force_success mt st order ts s = Inr s'" "rows s' = rows s @ forced"
       "forced_ok p order s forced" by blast
  have po: "process_order R mt st order g = Some (Inr (rows s @ forced, rng_state s'))"
    using oa f(1) f(2) by (simp add: process_order_attempts)
  have "if paid s \<or> order_status order = 5 then rows s @ forced = rows s
        else \<exists>r. rows s @ forced = rows s @ [r] \<and> row_attempt_no r = attempt_no s + 1
               \<and> paid_row p order r"
    using f(3) by (auto simp: forced_ok_def)
  with oa po ro show ?thesis by blast
qed

subsection \<open>Runs with generators that return the same draws\<close>

lemma same_drawsD:
  assumes "same_draws rel R R'" and "rel g h"
  shows "fst (rng_random R g) = fst (rng_random R' h)"
    and "rel (snd (rng_random R g)) (snd (rng_random R' h))"
    and "fst (rng_randint R a b g) = fst (rng_randint R' a b h)"
    and "rel (snd (rng_randint R a b g)) (snd (rng_randint R' a b h))"
  using assms unfolding same_draws_def by blast+

lemma same_draws_converse:
  assumes "same_draws rel R R'"
  shows "same_draws (\<lambda>h g. rel g h) R' R"
  using assms unfolding same_draws_def by metis

lemma choices_sim:
  assumes "same_draws rel R R'" and "rel g h"
  shows "rel_sum (=) (rel_prod (=) rel) (choices R population weights g)
           (choices R' population weights h)"
  using same_drawsD(1,2) [OF assms] by (simp add: choices_cases)

lemma weighted_choice_key_sim:
  assumes "same_draws rel R R'" and "rel g h"
  shows "rel_sum (=) (rel_prod (=) rel) (weighted_choice_key R weights g)
           (weighted_choice_key R' weights h)"
  by (simp add: weighted_choice_key_def choices_sim [OF assms])

lemma pick_next_method_sim:
  assumes "same_draws rel R R'" and "rel g h"
  shows "rel_sum (=) (rel_prod (=) rel) (pick_next_method R current mc g)
           (pick_next_method R' current mc h)"
  using same_drawsD(1,2) [OF assms] assms(2)
  by (auto simp: pick_next_method_def Let_def weighted_choice_key_sim [OF assms(1)]
      split: sum.splits)

lemma fill_chosen_sim_Some:
  fixes R :: "'g rng" and R' :: "'h rng"
  assumes sim: "same_draws rel R R'"
    and run: "fill_chosen R n mx chosen g = Some y" and rel: "rel g h"
  shows "\<exists>h'. fill_chosen R' n mx chosen h = Some (fst y, h') \<and> rel (snd y) h'"
proof -
  define P where "P = (\<lambda>(Rx :: 'g rng) n mx chosen g (y :: int list \<times> 'g).
      Rx = R \<longrightarrow> (\<forall>h. rel g h \<longrightarrow>
        (\<exists>h'. fill_chosen R' n mx chosen h = Some (fst y, h') \<and> rel (snd y) h')))"
  have "P R n mx chosen g y"
  proof (rule fill_chosen.raw_induct [where P = P, OF _ run])
    fix f and Rx :: "'g rng" and n mx chosen g and y :: "int list \<times> 'g"
    assume IH: "\<And>Rx n mx chosen g y. f Rx n mx chosen g = Some y \<Longrightarrow> P Rx n mx chosen g y"
      and step: "(if int (length chosen) < n
                  then f Rx n mx (List.insert (fst (rng_randint Rx 1 mx g)) chosen)
                         (snd (rng_randint Rx 1 mx g))
                  else Some (chosen, g)) = Some y"
    show "P Rx n mx chosen g y"
      unfolding P_def
    proof (intro impI allI)
      fix h
      assume Rx: "Rx = R" and gh: "rel g h"
      show "\<exists>h'. fill_chosen R' n mx chosen h = Some (fst y, h') \<and> rel (snd y) h'"
      proof (cases "int (length chosen) < n")
        case True
        with step Rx have "f R n mx (List.insert (fst (rng_randint R 1 mx g)) chosen)
            (snd (rng_randint R 1 mx g)) = Some y" by simp
        from IH [OF this] same_drawsD(4) [OF sim gh, of 1 mx] obtain h' where
          h': "fill_chosen R' n mx (List.insert (fst (rng_randint R 1 mx g)) chosen)
                 (snd (rng_randint R' 1 mx h)) = Some (fst y, h')" "rel (snd y) h'"
          unfolding P_def by blast
        have "fill_chosen R' n mx chosen h =
            fill_chosen R' n mx (List.insert (fst (rng_randint R' 1 mx h)) chosen)
              (snd (rng_randint R' 1 mx h))"
          using True by (subst fill_chosen.simps) simp
        with h' same_drawsD(3) [OF sim gh, of 1 mx] show ?thesis by simp
      next
        case False
        with step have y: "y = (chosen, g)" by simp
        have "fill_chosen R' n mx chosen h = Some (chosen, h)"
          using False by (subst fill_chosen.simps) simp
        with y gh show ?thesis by simp
      qed
    qed
  qed
  with rel show ?thesis unfolding P_def by blast
qed

lemma fill_chosen_sim:
  fixes R :: "'g rng" and R' :: "'h rng"
  assumes sim: "same_draws rel R R'" and rel: "rel g h"
  shows "rel_option (rel_prod (=) rel) (fill_chosen R n mx chosen g)
           (fill_chosen R' n mx chosen h)"
proof (cases "fill_chosen R n mx chosen g")
  case None
  have "fill_chosen R' n mx chosen h = None"
  proof (rule ccontr)
    assume "fill_chosen R' n mx chosen h \<noteq> None"
    then obtain y' where y': "fill_chosen R' n mx chosen h = Some y'" by auto
    from fill_chosen_sim_Some [OF same_draws_converse [OF sim] y', of g] rel None
    show False by simp
  qed
  with None show ?thesis by simp
next
  case (Some y)
  from fill_chosen_sim_Some [OF sim Some rel] obtain h' where
    "fill_chosen R' n mx chosen h = Some (fst y, h')" "rel (snd y) h'" by blast
  with Some show ?thesis by (cases y) simp
qed

lemma sorted_attempt_times_sim:
  assumes "same_draws rel R R'" and "rel g h"
  shows "rel_option (rel_prod (=) rel) (sorted_attempt_times R base_dt n g)
           (sorted_attempt_times R' base_dt n h)"
proof (cases "n \<le> 0")
  case True
  with assms(2) show ?thesis by (simp add: sorted_attempt_times_def)
next
  case False
  from fill_chosen_sim [OF assms,
      of "min n (max 1 (PAYMENT_WINDOW_SECONDS - 2))" "max 1 (PAYMENT_WINDOW_SECONDS - 2)" "[]"]
  show ?thesis
    using False
    by (cases rule: option.rel_cases) (auto simp: sorted_attempt_times_def Let_def)
qed

lemma draw_total_attempts_planned_sim:
  assumes "same_draws rel R R'" and "rel g h"
  shows "rel_sum (=) (rel_prod (=) rel) (draw_total_attempts_planned R g)
           (draw_total_attempts_planned R' h)"
  using weighted_choice_key_sim [OF assms,
      of "[(1, 45 / 100), (2, 32 / 100), (3, 18 / 100), (4, 5 / 100)] :: (int \<times> real) list"]
  by (cases rule: rel_sum.cases)
     (auto simp: draw_total_attempts_planned_def GLOBAL_ATTEMPT_WEIGHTS_eq)

lemma choose_method_sim:
  assumes "same_draws rel R R'" and "same_locals rel s s'"
  shows "rel_sum (=) (rel_prod (=) (same_locals rel)) (choose_method R s) (choose_method R' s')"
proof (cases "attempt_no s = 0")
  case True
  with assms(2) show ?thesis by (simp add: choose_method_def same_locals_def)
next
  case False
  from assms(2) have "rel (rng_state s) (rng_state s')" by (simp add: same_locals_def)
  from pick_next_method_sim [OF assms(1) this, of "current_method s" "method_counts s"]
  show ?thesis
    using False assms(2)
    by (cases rule: rel_sum.cases) (auto simp: choose_method_def same_locals_def)
qed

lemma cap_check_sim:
  assumes "same_draws rel R R'" and "same_locals rel s s'"
  shows "rel_sum (=) (rel_option (rel_prod (=) (same_locals rel)))
           (cap_check R method s) (cap_check R' method s')"
proof -
  from assms(2) have g: "rel (rng_state s) (rng_state s')"
    and mc: "method_counts s' = method_counts s"
    by (simp_all add: same_locals_def)
  have key: "\<And>ws. rel_sum (=) (rel_option (rel_prod (=) (same_locals rel)))
      (case weighted_choice_key R ws (rng_state s) of
         Inl e \<Rightarrow> Inl e
       | Inr (m, g') \<Rightarrow> Inr (Some (m, s\<lparr>current_method := m, rng_state := g'\<rparr>)))
      (case weighted_choice_key R' ws (rng_state s') of
         Inl e \<Rightarrow> Inl e
       | Inr (m, g') \<Rightarrow> Inr (Some (m, s'\<lparr>current_method := m, rng_state := g'\<rparr>)))"
  proof -
    fix ws :: "(string \<times> real) list"
    from weighted_choice_key_sim [OF assms(1) g, of ws]
    show "rel_sum (=) (rel_option (rel_prod (=) (same_locals rel)))
      (case weighted_choice_key R ws (rng_state s) of
         Inl e \<Rightarrow> Inl e
       | Inr (m, g') \<Rightarrow> Inr (Some (m, s\<lparr>current_method := m, rng_state := g'\<rparr>)))
      (case weighted_choice_key R' ws (rng_state s') of
         Inl e \<Rightarrow> Inl e
       | Inr (m, g') \<Rightarrow> Inr (Some (m, s'\<lparr>current_method := m, rng_state := g'\<rparr>)))"
      using assms(2)
      by (cases "weighted_choice_key R ws (rng_state s)";
          cases "weighted_choice_key R' ws (rng_state s')")
         (auto simp: same_locals_def)
  qed
  show ?thesis
  proof (cases "map_of PAYMENT_METHOD_CONFIG method")
    case None
    then show ?thesis by (simp add: cap_check_def)
  next
    case (Some cfg)
    show ?thesis
    proof (cases "method_counts s method")
      case None
      with Some mc show ?thesis by (simp add: cap_check_def)
    next
      case c: (Some c)
      show ?thesis
      proof (cases "weights_of (remove1 method (available_methods_by_cap (method_counts s)))")
        case (Inl e)
        with Some c mc assms(2) show ?thesis by (simp add: cap_check_def Let_def)
      next
        case (Inr ws)
        with Some c mc assms(2) key [of ws] show ?thesis by (simp add: cap_check_def Let_def)
      qed
    qed
  qed
qed

lemma record_attempt_sim:
  assumes "same_draws rel R R'" and "same_locals rel s s'"
  shows "rel_sum (=) (rel_flow (same_locals rel))
           (record_attempt R mt st order t method s) (record_attempt R' mt st order t method s')"
  using assms(2) same_drawsD(1,2) [OF assms(1), of "rng_state s" "rng_state s'"]
  by (auto simp: record_attempt_def Let_def same_locals_def split: option.splits)


lemma attempt_body_sim:
  fixes s :: "'g attempt_state" and s' :: "'h attempt_state"
  assumes sim: "same_draws rel R R'" and loc: "same_locals rel s s'"
  shows "rel_sum (=) (rel_flow (same_locals rel))
           (attempt_body R mt st order t s) (attempt_body R' mt st order t s')"
proof (cases "paid s")
  case True
  with loc have "paid s'" by (simp add: same_locals_def)
  with True loc show ?thesis by (simp add: attempt_body_def)
next
  case False
  with loc have np: "\<not> paid s'" by (simp add: same_locals_def)
  note ch = choose_method_sim [OF sim loc]
  show ?thesis
  proof (cases "choose_method R s")
    case (Inl e)
    with ch have "choose_method R' s' = Inl e" by (cases "choose_method R' s'") simp_all
    with Inl False np show ?thesis by (simp add: attempt_body_def)
  next
    case (Inr ms)
    obtain m s1 where ms: "ms = (m, s1)" by (cases ms)
    from ch Inr ms obtain s1' where ch': "choose_method R' s' = Inr (m, s1')"
      and loc1: "same_locals rel s1 s1'"
      by (cases "choose_method R' s'") auto
    note cc = cap_check_sim [OF sim loc1, of m]
    show ?thesis
    proof (cases "cap_check R m s1")
      case (Inl e)
      with cc have "cap_check R' m s1' = Inl e" by (cases "cap_check R' m s1'") simp_all
      with Inl Inr ms ch' False np show ?thesis by (simp add: attempt_body_def)
    next
      case c: (Inr res)
      show ?thesis
      proof (cases res)
        case None
        with cc c have "cap_check R' m s1' = Inr None"
          by (cases "cap_check R' m s1'") simp_all
        with None c Inr ms ch' False np loc1 show ?thesis by (simp add: attempt_body_def)
      next
        case (Some ms2)
        obtain m2 s2 where ms2: "ms2 = (m2, s2)" by (cases ms2)
        from cc c Some ms2 obtain s2' where cc': "cap_check R' m s1' = Inr (Some (m2, s2'))"
          and loc2: "same_locals rel s2 s2'"
          by (cases "cap_check R' m s1'") (auto simp: option_rel_Some1)
        from record_attempt_sim [OF sim loc2, of mt st order t m2]
        show ?thesis
          using Some ms2 c Inr ms ch' cc' False np by (simp add: attempt_body_def)
      qed
    qed
  qed
qed

lemma attempt_loop_sim:
  fixes s :: "'g attempt_state" and s' :: "'h attempt_state"
  assumes sim: "same_draws rel R R'" and loc: "same_locals rel s s'"
  shows "rel_sum (=) (same_locals rel)
           (attempt_loop R mt st order ts s) (attempt_loop R' mt st order ts s')"
  using loc
proof (induction ts arbitrary: s s')
  case Nil
  then show ?case by simp
next
  case (Cons t ts)
  note ab = attempt_body_sim [OF sim Cons.prems, of mt st order t]
  show ?case
  proof (cases "attempt_body R mt st order t s")
    case (Inl e)
    with ab have "attempt_body R' mt st order t s' = Inl e"
      by (cases "attempt_body R' mt st order t s'") simp_all
    with Inl show ?thesis by simp
  next
    case (Inr fl)
    show ?thesis
    proof (cases fl)
      case (Break s1)
      with ab Inr obtain s1' where "attempt_body R' mt st order t s' = Inr (Break s1')"
        "same_locals rel s1 s1'"
        by (cases "attempt_body R' mt st order t s'") (auto elim: flow.rel_cases)
      with Inr Break show ?thesis by simp
    next
      case (Next s1)
      with ab Inr obtain s1' where "attempt_body R' mt st order t s' = Inr (Next s1')"
        "same_locals rel s1 s1'"
        by (cases "attempt_body R' mt st order t s'") (auto elim: flow.rel_cases)
      with Inr Next Cons.IH [of s1 s1'] show ?thesis by simp
    qed
  qed
qed

lemma force_success_sim:
  fixes s :: "'g attempt_state" and s' :: "'h attempt_state"
  assumes "same_locals rel s s'"
  shows "rel_sum (=) (same_locals rel)
           (force_success mt st order ts s) (force_success mt st order ts s')"
  using assms
  by (auto simp: force_success_def Let_def same_locals_def split: option.splits list.splits)


lemma process_order_sim:
  fixes R :: "'g rng" and R' :: "'h rng"
  assumes sim: "same_draws rel R R'" and gh: "rel g h"
  shows "rel_option (rel_sum (=) (rel_prod (=) rel))
           (process_order R mt st order g) (process_order R' mt st order h)"
proof -
  note d = draw_total_attempts_planned_sim [OF sim gh]
  show ?thesis
  proof (cases "draw_total_attempts_planned R g")
    case (Inl e)
    with d have "draw_total_attempts_planned R' h = Inl e"
      by (cases "draw_total_attempts_planned R' h") simp_all
    with Inl show ?thesis by (simp add: process_order_def)
  next
    case (Inr ng)
    obtain n g1 where ng: "ng = (n, g1)" by (cases ng)
    from d Inr ng obtain h1 where d': "draw_total_attempts_planned R' h = Inr (n, h1)"
      and r1: "rel g1 h1"
      by (cases "draw_total_attempts_planned R' h") auto
    note t = sorted_attempt_times_sim [OF sim r1, of "order_date order" n]
    show ?thesis
    proof (cases "sorted_attempt_times R (order_date order) n g1")
      case None
      with t have "sorted_attempt_times R' (order_date order) n h1 = None"
        by (cases "sorted_attempt_times R' (order_date order) n h1") simp_all
      with None Inr ng d' show ?thesis by (simp add: process_order_def)
    next
      case (Some tg)
      obtain ts g2 where tg: "tg = (ts, g2)" by (cases tg)
      from t Some tg obtain h2 where
        t': "sorted_attempt_times R' (order_date order) n h1 = Some (ts, h2)"
        and r2: "rel g2 h2"
        by (cases "sorted_attempt_times R' (order_date order) n h1") auto
      note w = weighted_choice_key_sim [OF sim r2, of build_method_weights]
      show ?thesis
      proof (cases "weighted_choice_key R build_method_weights g2")
        case (Inl e)
        with w have "weighted_choice_key R' build_method_weights h2 = Inl e"
          by (cases "weighted_choice_key R' build_method_weights h2") simp_all
        with Inl Some tg t' Inr ng d' show ?thesis by (simp add: process_order_def)
      next
        case m: (Inr mg)
        obtain m g3 where mg: "mg = (m, g3)" by (cases mg)
        from w m mg obtain h3 where
          w': "weighted_choice_key R' build_method_weights h2 = Inr (m, h3)"
          and r3: "rel g3 h3"
          by (cases "weighted_choice_key R' build_method_weights h2") auto
        have loc: "same_locals rel (initial_state m g3) (initial_state m h3)"
          using r3 by (simp add: same_locals_def initial_state_def)
        note l = attempt_loop_sim [OF sim loc, of mt st order ts]
        have res: "rel_sum (=) (rel_prod (=) rel)
            (case attempt_loop R mt st order ts (initial_state m g3) of
               Inl e \<Rightarrow> Inl e
             | Inr s \<Rightarrow>
                 (case force_success mt st order ts s of
                    Inl e \<Rightarrow> Inl e
                  | Inr s' \<Rightarrow> Inr (rows s', rng_state s')))
            (case attempt_loop R' mt st order ts (initial_state m h3) of
               Inl e \<Rightarrow> Inl e
             | Inr s \<Rightarrow>
                 (case force_success mt st order ts s of
                    Inl e \<Rightarrow> Inl e
                  | Inr s' \<Rightarrow> Inr (rows s', rng_state s')))"
        proof (cases "attempt_loop R mt st order ts (initial_state m g3)")
          case (Inl e)
          with l have "attempt_loop R' mt st order ts (initial_state m h3) = Inl e"
            by (cases "attempt_loop R' mt st order ts (initial_state m h3)") simp_all
          with Inl show ?thesis by simp
        next
          case s: (Inr s)
          from l s obtain s' where
            l': "attempt_loop R' mt st order ts (initial_state m h3) = Inr s'"
            and locs: "same_locals rel s s'"
            by (cases "attempt_loop R' mt st order ts (initial_state m h3)") auto
          from force_success_sim [OF locs, of mt st order ts]
          show ?thesis
            using s l'
            by (cases "force_success mt st order ts s"; cases "force_success mt st order ts s'")
               (auto simp: same_locals_def)
        qed
        show ?thesis
          using res m mg w' Some tg t' Inr ng d'
          by (simp add: process_order_def initial_state_def)
      qed
    qed
  qed
qed

lemma generate_sim:
  fixes R :: "'g rng" and R' :: "'h rng"
  assumes sim: "same_draws rel R R'" and gh: "rel g h"
  shows "rel_option (rel_sum (=) (rel_prod (=) rel))
           (generate R mt st orders acc g) (generate R' mt st orders acc h)"
  using gh
proof (induction orders arbitrary: acc g h)
  case Nil
  then show ?case by simp
next
  case (Cons order orders)
  note po = process_order_sim [OF sim Cons.prems, of mt st order]
  show ?case
  proof (cases "process_order R mt st order g")
    case None
    with po have "process_order R' mt st order h = None"
      by (cases "process_order R' mt st order h") simp_all
    with None show ?thesis by simp
  next
    case (Some res)
    show ?thesis
    proof (cases res)
      case (Inl e)
      with po Some have "process_order R' mt st order h = Some (Inl e)"
        by (cases "process_order R' mt st order h") (auto elim: rel_sum.cases)
      with Some Inl show ?thesis by simp
    next
      case (Inr rg)
      obtain rs g1 where rg: "rg = (rs, g1)" by (cases rg)
      from po Some Inr rg obtain h1 where
        po': "process_order R' mt st order h = Some (Inr (rs, h1))" and r1: "rel g1 h1"
        by (cases "process_order R' mt st order h") (auto elim: rel_sum.cases)
      from Cons.IH [OF r1, of "acc @ rs"] Some Inr rg po' show ?thesis by simp
    qed
  qed
qed


lemma same_rows:
  assumes "rel_option (rel_sum (=) (rel_prod (=) rel)) x y"
  shows "map_option (map_sum id fst) x = map_option (map_sum id fst) y"
  using assms by (cases x; cases y) (auto elim!: rel_sum.cases)

section \<open>Claims about the payment attempt simulator\<close>

text \<open>
  The claims below are stated for \<open>generate\<close>, the loop over the orders, started from any
  generator state. The rows of an order are the rows of the output that carry its id, the
  order ids being distinct as the keys of \<^verbatim>\<open>orders\<close> are. The status table holds the two
  codes the script looks up, with different ids, and the method table is not empty, as
  \<^verbatim>\<open>fetch_payment_methods\<close> and \<^verbatim>\<open>fetch_payment_statuses\<close> return them. The loop
  drawing the timestamps ends when the generator is eventually distinct (\<open>generate_returns\<close>),
  as \<open>counter_rng\<close> is; the claims hold for such a generator and for every run that
  returns, and that the run raises nothing is part of each conclusion.
\<close>

text \<open>
  Claim C1. For every order whose status is not 5 (cancelled), the rows emitted for it
  are not empty, the last one has the paid status and the order total as amount, and it
  is the only row with the paid status.
\<close>

theorem non_cancelled_order_one_paid_row_last:
  fixes R :: "'g rng"
  assumes "map_of st ''paid'' = Some p" and "map_of st ''failed'' = Some f" and "p \<noteq> f"
    and "mt \<noteq> []" and "distinct (map order_id orders)"
    and "eventually_distinct R \<or> generate R mt st orders [] g \<noteq> None"
  shows "\<exists>all_rows g'. generate R mt st orders [] g = Some (Inr (all_rows, g'))
           \<and> (\<forall>order \<in> set orders. order_status order \<noteq> 5 \<longrightarrow>
                 (let rs = filter (\<lambda>r. row_order_id r = order_id order) all_rows
                  in rs \<noteq> [] \<and> row_payment_status_id (last rs) = p
                     \<and> row_amount_paid (last rs) = order_total order
                     \<and> filter (\<lambda>r. row_payment_status_id r = p) rs = [last rs]))"
proof -
  have returns: "generate R mt st orders [] g \<noteq> None"
    using assms(6) generate_returns [where R = R and orders = orders and g = g,
        OF _ assms(1) assms(2) assms(4)] by blast
  from generate_per_order [OF assms(1,2,4,5) returns] obtain all_rows g' where
    gen: "generate R mt st orders [] g = Some (Inr (all_rows, g'))"
    and each: "\<forall>order \<in> set orders.
                 order_rows_ok mt p f order
                   (filter (\<lambda>r. row_order_id r = order_id order) all_rows)"
    by blast
  have "\<forall>order \<in> set orders. order_status order \<noteq> 5 \<longrightarrow>
          (let rs = filter (\<lambda>r. row_order_id r = order_id order) all_rows
           in rs \<noteq> [] \<and> row_payment_status_id (last rs) = p
              \<and> row_amount_paid (last rs) = order_total order
              \<and> filter (\<lambda>r. row_payment_status_id r = p) rs = [last rs])"
  proof (intro ballI impI)
    fix order assume o: "order \<in> set orders" and nc: "order_status order \<noteq> 5"
    define rs where "rs = filter (\<lambda>r. row_order_id r = order_id order) all_rows"
    from each o have "order_rows_ok mt p f order rs" by (simp add: rs_def)
    with nc obtain fs r where shape: "rs = fs @ [r]" "paid_row p order r"
      "\<forall>x \<in> set fs. failed_row f x"
      by (auto simp: order_rows_ok_def)
    from shape(3) assms(3) have "filter (\<lambda>r. row_payment_status_id r = p) fs = []"
      by (auto simp: filter_empty_conv failed_row_def)
    with shape(1,2) have "rs \<noteq> [] \<and> row_payment_status_id (last rs) = p
        \<and> row_amount_paid (last rs) = order_total order
        \<and> filter (\<lambda>r. row_payment_status_id r = p) rs = [last rs]"
      by (simp add: paid_row_def)
    then show "let rs = filter (\<lambda>r. row_order_id r = order_id order) all_rows
           in rs \<noteq> [] \<and> row_payment_status_id (last rs) = p
              \<and> row_amount_paid (last rs) = order_total order
              \<and> filter (\<lambda>r. row_payment_status_id r = p) rs = [last rs]"
      by (simp add: rs_def Let_def)
  qed
  with gen show ?thesis by blast
qed

theorem non_cancelled_order_one_paid_row_last_witness:
  "map_of example_statuses ''paid'' = Some 1 \<and> map_of example_statuses ''failed'' = Some 2
   \<and> (1 :: int) \<noteq> 2 \<and> example_methods \<noteq> []
   \<and> distinct (map order_id [delivered_order, cancelled_order])
   \<and> generate scripted_rng example_methods example_statuses [delivered_order, cancelled_order] []
        ([0.5, 0.99, 0.9, 0.1, 0.9, 0, 0, 0.9], [5, 3, 7]) \<noteq> None
   \<and> (\<exists>all_rows g'.
        generate scripted_rng example_methods example_statuses [delivered_order, cancelled_order] []
          ([0.5, 0.99, 0.9, 0.1, 0.9, 0, 0, 0.9], [5, 3, 7]) = Some (Inr (all_rows, g'))
        \<and> (\<forall>order \<in> set [delivered_order, cancelled_order]. order_status order \<noteq> 5 \<longrightarrow>
              (let rs = filter (\<lambda>r. row_order_id r = order_id order) all_rows
               in rs \<noteq> [] \<and> row_payment_status_id (last rs) = 1
                  \<and> row_amount_paid (last rs) = order_total order
                  \<and> filter (\<lambda>r. row_payment_status_id r = 1) rs = [last rs])))"
proof -
  have h1: "map_of example_statuses ''paid'' = Some 1" by (simp add: example_statuses_def)
  have h2: "map_of example_statuses ''failed'' = Some 2" by (simp add: example_statuses_def)
  have h3: "(1 :: int) \<noteq> 2" by simp
  have h4: "example_methods \<noteq> []" by (simp add: example_methods_def)
  have h5: "distinct (map order_id [delivered_order, cancelled_order])"
    by (simp add: delivered_order_def cancelled_order_def)
  have "generate scripted_rng example_methods example_statuses [delivered_order, cancelled_order] []
        ([0.5, 0.99, 0.9, 0.1, 0.9, 0, 0, 0.9], [5, 3, 7]) =
      Some (Inr ([\<lparr>row_order_id = 7, row_attempt_no = 1, row_payment_date = 1003,
            row_amount_paid = 0, row_payment_method_id = 4, row_payment_status_id = 2\<rparr>,
         \<lparr>row_order_id = 7, row_attempt_no = 2, row_payment_date = 1005,
            row_amount_paid = 0, row_payment_method_id = 4, row_payment_status_id = 2\<rparr>,
         \<lparr>row_order_id = 7, row_attempt_no = 3, row_payment_date = 1006,
            row_amount_paid = 100, row_payment_method_id = 4, row_payment_status_id = 1\<rparr>,
         \<lparr>row_order_id = 8, row_attempt_no = 1, row_payment_date = 2007,
            row_amount_paid = 0, row_payment_method_id = 1, row_payment_status_id = 2\<rparr>],
        ([], [])))"
    by code_simp
  then have h6: "generate scripted_rng example_methods example_statuses
        [delivered_order, cancelled_order] []
        ([0.5, 0.99, 0.9, 0.1, 0.9, 0, 0, 0.9], [5, 3, 7]) \<noteq> None"
    by simp
  show ?thesis
    by (intro conjI h1 h2 h3 h4 h5 h6
        non_cancelled_order_one_paid_row_last [OF h1 h2 h3 h4 h5 disjI2 [OF h6]])
qed

text \<open>
  Claim C2, as stated, fails: the attempt loop does not look at the order status, so a
  cancelled order whose attempt succeeds gets a paid row. Only the forced row is withheld
  from a cancelled order.
\<close>

theorem cancelled_order_paid_row:
  "order_status cancelled_order = 5
   \<and> map_of example_statuses ''paid'' = Some 1
   \<and> generate scripted_rng example_methods example_statuses [cancelled_order] []
        ([0, 0, 0], [5]) =
      Some (Inr ([\<lparr>row_order_id = 8, row_attempt_no = 1, row_payment_date = 2005,
                   row_amount_paid = 50, row_payment_method_id = 1,
                   row_payment_status_id = 1\<rparr>],
                 ([], [])))"
  by (intro conjI) (simp add: cancelled_order_def, simp add: example_statuses_def, code_simp)

text \<open>
  Claim C2, amended. For every cancelled order (status 5) the forced resolution adds
  nothing: the rows emitted for the order are exactly the rows its attempt loop has
  appended, from the generator state the orders before it have left. Every such row but
  the last has the failed status and amount zero. When the loop ends paid, the last row is
  the paid row of the attempt that succeeded, with the order total as amount and the
  number of that attempt; otherwise every row is a failed row. The sequence may be empty:
  it is for the cancelled order whose only attempt uses a method without an id.
\<close>

theorem cancelled_order_rows:
  fixes R :: "'g rng"
  assumes "map_of st ''paid'' = Some p" and "map_of st ''failed'' = Some f"
    and "mt \<noteq> []" and "distinct (map order_id orders)"
    and "eventually_distinct R \<or> generate R mt st orders [] g \<noteq> None"
  shows "(\<exists>all_rows g'. generate R mt st orders [] g = Some (Inr (all_rows, g'))
           \<and> (\<forall>pre order post. orders = pre @ order # post \<and> order_status order = 5 \<longrightarrow>
                 (\<exists>rows_pre g0 ts (s :: 'g attempt_state).
                    generate R mt st pre [] g = Some (Inr (rows_pre, g0))
                    \<and> order_attempts R mt st order g0 = Some (Inr (ts, s))
                    \<and> force_success mt st order ts s = Inr s
                    \<and> process_order R mt st order g0 = Some (Inr (rows s, rng_state s))
                    \<and> filter (\<lambda>r. row_order_id r = order_id order) all_rows = rows s
                    \<and> (\<forall>r \<in> set (butlast (rows s)).
                          row_payment_status_id r = f \<and> row_amount_paid r = 0)
                    \<and> (if paid s
                        then rows s \<noteq> [] \<and> row_payment_status_id (last (rows s)) = p
                             \<and> row_amount_paid (last (rows s)) = order_total order
                             \<and> row_attempt_no (last (rows s)) = attempt_no s
                        else \<forall>r \<in> set (rows s).
                               row_payment_status_id r = f \<and> row_amount_paid r = 0))))
         \<and> generate scripted_rng [(''paypal'', 2)] example_statuses [cancelled_order] []
              ([0, 0, 0], [5]) = Some (Inr ([], ([], [])))"
proof (rule conjI)
  have returns: "generate R mt st orders [] g \<noteq> None"
    using assms(5) generate_returns [where R = R and orders = orders and g = g,
        OF _ assms(1) assms(2) assms(3)] by blast
  from generate_segments [OF assms(1-3) returns] obtain segs g' where
    gen: "generate R mt st orders [] g = Some (Inr ([] @ concat segs, g'))" by blast
  have "\<forall>pre order post. orders = pre @ order # post \<and> order_status order = 5 \<longrightarrow>
          (\<exists>rows_pre g0 ts (s :: 'g attempt_state).
             generate R mt st pre [] g = Some (Inr (rows_pre, g0))
             \<and> order_attempts R mt st order g0 = Some (Inr (ts, s))
             \<and> force_success mt st order ts s = Inr s
             \<and> process_order R mt st order g0 = Some (Inr (rows s, rng_state s))
             \<and> filter (\<lambda>r. row_order_id r = order_id order) (concat segs) = rows s
             \<and> (\<forall>r \<in> set (butlast (rows s)).
                   row_payment_status_id r = f \<and> row_amount_paid r = 0)
             \<and> (if paid s
                 then rows s \<noteq> [] \<and> row_payment_status_id (last (rows s)) = p
                      \<and> row_amount_paid (last (rows s)) = order_total order
                      \<and> row_attempt_no (last (rows s)) = attempt_no s
                 else \<forall>r \<in> set (rows s).
                        row_payment_status_id r = f \<and> row_amount_paid r = 0))"
  proof (intro allI impI)
    fix pre order post
    assume a: "orders = pre @ order # post \<and> order_status order = 5"
    then have split: "orders = pre @ order # post" and cancelled: "order_status order = 5"
      by simp_all
    from generate_split [OF assms(1-3) assms(4) [unfolded split] returns [unfolded split]]
    obtain rows_pre g0 rs g1 all_rows g'' where
      pre: "generate R mt st pre [] g = Some (Inr (rows_pre, g0))"
      and po: "process_order R mt st order g0 = Some (Inr (rs, g1))"
      and whole: "generate R mt st (pre @ order # post) [] g = Some (Inr (all_rows, g''))"
      and own: "filter (\<lambda>r. row_order_id r = order_id order) all_rows = rs"
      by blast
    from whole gen split have all_rows: "all_rows = concat segs" by simp
    from po have "order_attempts R mt st order g0 \<noteq> None"
      by (auto simp: process_order_attempts split: option.splits)
    from order_attempts_result [OF assms(1,2) this] obtain ts and s :: "'g attempt_state" where
      oa: "order_attempts R mt st order g0 = Some (Inr (ts, s))"
      and ro: "rows_ok p f order s"
      and lastno: "paid s \<longrightarrow> rows s \<noteq> [] \<and> row_attempt_no (last (rows s)) = attempt_no s"
      by blast
    have fs: "force_success mt st order ts s = Inr s"
      using cancelled by (simp add: force_success_def)
    from po oa fs have rs: "rs = rows s" and po': "process_order R mt st order g0 =
        Some (Inr (rows s, rng_state s))"
      by (simp_all add: process_order_attempts)
    have shape: "(\<forall>r \<in> set (butlast (rows s)).
                   row_payment_status_id r = f \<and> row_amount_paid r = 0)
             \<and> (if paid s
                 then rows s \<noteq> [] \<and> row_payment_status_id (last (rows s)) = p
                      \<and> row_amount_paid (last (rows s)) = order_total order
                      \<and> row_attempt_no (last (rows s)) = attempt_no s
                 else \<forall>r \<in> set (rows s).
                        row_payment_status_id r = f \<and> row_amount_paid r = 0)"
    proof (cases "paid s")
      case True
      with ro obtain fs r where "rows s = fs @ [r]" "paid_row p order r"
        "\<forall>x \<in> set fs. failed_row f x"
        by (auto simp: rows_ok_def)
      with True lastno show ?thesis by (simp add: paid_row_def failed_row_def)
    next
      case False
      with ro have "\<forall>x \<in> set (rows s). failed_row f x" by (simp add: rows_ok_def)
      with False show ?thesis by (auto simp: failed_row_def dest: in_set_butlastD)
    qed
    from pre oa fs po' own all_rows rs shape
    show "\<exists>rows_pre g0 ts (s :: 'g attempt_state).
             generate R mt st pre [] g = Some (Inr (rows_pre, g0))
             \<and> order_attempts R mt st order g0 = Some (Inr (ts, s))
             \<and> force_success mt st order ts s = Inr s
             \<and> process_order R mt st order g0 = Some (Inr (rows s, rng_state s))
             \<and> filter (\<lambda>r. row_order_id r = order_id order) (concat segs) = rows s
             \<and> (\<forall>r \<in> set (butlast (rows s)).
                   row_payment_status_id r = f \<and> row_amount_paid r = 0)
             \<and> (if paid s
                 then rows s \<noteq> [] \<and> row_payment_status_id (last (rows s)) = p
                      \<and> row_amount_paid (last (rows s)) = order_total order
                      \<and> row_attempt_no (last (rows s)) = attempt_no s
                 else \<forall>r \<in> set (rows s).
                        row_payment_status_id r = f \<and> row_amount_paid r = 0)"
      by (intro exI [of _ rows_pre] exI [of _ g0] exI [of _ ts] exI [of _ s]) simp
  qed
  with gen show "\<exists>all_rows g'. generate R mt st orders [] g = Some (Inr (all_rows, g'))
           \<and> (\<forall>pre order post. orders = pre @ order # post \<and> order_status order = 5 \<longrightarrow>
                 (\<exists>rows_pre g0 ts (s :: 'g attempt_state).
                    generate R mt st pre [] g = Some (Inr (rows_pre, g0))
                    \<and> order_attempts R mt st order g0 = Some (Inr (ts, s))
                    \<and> force_success mt st order ts s = Inr s
                    \<and> process_order R mt st order g0 = Some (Inr (rows s, rng_state s))
                    \<and> filter (\<lambda>r. row_order_id r = order_id order) all_rows = rows s
                    \<and> (\<forall>r \<in> set (butlast (rows s)).
                          row_payment_status_id r = f \<and> row_amount_paid r = 0)
                    \<and> (if paid s
                        then rows s \<noteq> [] \<and> row_payment_status_id (last (rows s)) = p
                             \<and> row_amount_paid (last (rows s)) = order_total order
                             \<and> row_attempt_no (last (rows s)) = attempt_no s
                        else \<forall>r \<in> set (rows s).
                               row_payment_status_id r = f \<and> row_amount_paid r = 0)))"
    by (intro exI [of _ "concat segs"] exI [of _ g'] conjI) simp_all
next
  show "generate scripted_rng [(''paypal'', 2)] example_statuses [cancelled_order] []
          ([0, 0, 0], [5]) = Some (Inr ([], ([], [])))"
    by code_simp
qed


theorem cancelled_order_rows_witness:
  "map_of example_statuses ''paid'' = Some 1 \<and> map_of example_statuses ''failed'' = Some 2
   \<and> example_methods \<noteq> []
   \<and> distinct (map order_id [delivered_order, cancelled_order])
   \<and> generate scripted_rng example_methods example_statuses [delivered_order, cancelled_order] []
        ([0.5, 0.99, 0.9, 0.1, 0.9, 0, 0, 0.9], [5, 3, 7]) \<noteq> None
   \<and> [delivered_order, cancelled_order] = [delivered_order] @ cancelled_order # []
   \<and> order_status cancelled_order = 5
   \<and> (\<exists>all_rows g'.
        generate scripted_rng example_methods example_statuses [delivered_order, cancelled_order] []
          ([0.5, 0.99, 0.9, 0.1, 0.9, 0, 0, 0.9], [5, 3, 7]) = Some (Inr (all_rows, g'))
        \<and> (\<exists>rows_pre g0 ts (s :: (real list \<times> int list) attempt_state).
              generate scripted_rng example_methods example_statuses [delivered_order] []
                ([0.5, 0.99, 0.9, 0.1, 0.9, 0, 0, 0.9], [5, 3, 7]) = Some (Inr (rows_pre, g0))
              \<and> order_attempts scripted_rng example_methods example_statuses cancelled_order g0
                  = Some (Inr (ts, s))
              \<and> force_success example_methods example_statuses cancelled_order ts s = Inr s
              \<and> process_order scripted_rng example_methods example_statuses cancelled_order g0
                  = Some (Inr (rows s, rng_state s))
              \<and> filter (\<lambda>r. row_order_id r = order_id cancelled_order) all_rows = rows s
              \<and> (\<forall>r \<in> set (butlast (rows s)).
                    row_payment_status_id r = 2 \<and> row_amount_paid r = 0)
              \<and> (if paid s
                  then rows s \<noteq> [] \<and> row_payment_status_id (last (rows s)) = 1
                       \<and> row_amount_paid (last (rows s)) = order_total cancelled_order
                       \<and> row_attempt_no (last (rows s)) = attempt_no s
                  else \<forall>r \<in> set (rows s).
                         row_payment_status_id r = 2 \<and> row_amount_paid r = 0)))
   \<and> generate scripted_rng [(''paypal'', 2)] example_statuses [cancelled_order] []
        ([0, 0, 0], [5]) = Some (Inr ([], ([], [])))"
proof -
  have h1: "map_of example_statuses ''paid'' = Some 1" by (simp add: example_statuses_def)
  have h2: "map_of example_statuses ''failed'' = Some 2" by (simp add: example_statuses_def)
  have h4: "example_methods \<noteq> []" by (simp add: example_methods_def)
  have h5: "distinct (map order_id [delivered_order, cancelled_order])"
    by (simp add: delivered_order_def cancelled_order_def)
  have "generate scripted_rng example_methods example_statuses [delivered_order, cancelled_order] []
        ([0.5, 0.99, 0.9, 0.1, 0.9, 0, 0, 0.9], [5, 3, 7]) =
      Some (Inr ([\<lparr>row_order_id = 7, row_attempt_no = 1, row_payment_date = 1003,
            row_amount_paid = 0, row_payment_method_id = 4, row_payment_status_id = 2\<rparr>,
         \<lparr>row_order_id = 7, row_attempt_no = 2, row_payment_date = 1005,
            row_amount_paid = 0, row_payment_method_id = 4, row_payment_status_id = 2\<rparr>,
         \<lparr>row_order_id = 7, row_attempt_no = 3, row_payment_date = 1006,
            row_amount_paid = 100, row_payment_method_id = 4, row_payment_status_id = 1\<rparr>,
         \<lparr>row_order_id = 8, row_attempt_no = 1, row_payment_date = 2007,
            row_amount_paid = 0, row_payment_method_id = 1, row_payment_status_id = 2\<rparr>],
        ([], [])))"
    by code_simp
  then have h6: "generate scripted_rng example_methods example_statuses
        [delivered_order, cancelled_order] []
        ([0.5, 0.99, 0.9, 0.1, 0.9, 0, 0, 0.9], [5, 3, 7]) \<noteq> None"
    by simp
  have hs: "[delivered_order, cancelled_order] = [delivered_order] @ cancelled_order # []"
    by simp
  have hc: "order_status cancelled_order = 5" by (simp add: cancelled_order_def)
  note inst = cancelled_order_rows [OF h1 h2 h4 h5 disjI2 [OF h6]]
  from inst [THEN conjunct1] obtain all_rows g' where
    gen: "generate scripted_rng example_methods example_statuses
            [delivered_order, cancelled_order] []
            ([0.5, 0.99, 0.9, 0.1, 0.9, 0, 0, 0.9], [5, 3, 7]) = Some (Inr (all_rows, g'))"
    and all: "\<forall>pre order post.
        [delivered_order, cancelled_order] = pre @ order # post \<and> order_status order = 5 \<longrightarrow>
        (\<exists>rows_pre g0 ts (s :: (real list \<times> int list) attempt_state).
              generate scripted_rng example_methods example_statuses pre []
                ([0.5, 0.99, 0.9, 0.1, 0.9, 0, 0, 0.9], [5, 3, 7]) = Some (Inr (rows_pre, g0))
              \<and> order_attempts scripted_rng example_methods example_statuses order g0
                  = Some (Inr (ts, s))
              \<and> force_success example_methods example_statuses order ts s = Inr s
              \<and> process_order scripted_rng example_methods example_statuses order g0
                  = Some (Inr (rows s, rng_state s))
              \<and> filter (\<lambda>r. row_order_id r = order_id order) all_rows = rows s
              \<and> (\<forall>r \<in> set (butlast (rows s)).
                    row_payment_status_id r = 2 \<and> row_amount_paid r = 0)
              \<and> (if paid s
                  then rows s \<noteq> [] \<and> row_payment_status_id (last (rows s)) = 1
                       \<and> row_amount_paid (last (rows s)) = order_total order
                       \<and> row_attempt_no (last (rows s)) = attempt_no s
                  else \<forall>r \<in> set (rows s).
                         row_payment_status_id r = 2 \<and> row_amount_paid r = 0))"
    by (elim exE conjE)
  note inner = all [rule_format, OF conjI [OF hs hc]]
  note empty = inst [THEN conjunct2]
  show ?thesis
    apply (intro conjI h1 h2 h4 h5 h6 hs hc empty)
    apply (rule exI [of _ all_rows], rule exI [of _ g'], rule conjI [OF gen inner])
    done
qed

text \<open>
  Claim C4, as stated, fails: \<^verbatim>\<open>attempt_no\<close> is incremented before the method id is looked
  up, so a skipped attempt keeps its number. With a method table that lacks \<open>card\<close>, the
  only row of the order below is numbered 2.
\<close>

theorem skipped_attempt_leaves_gap:
  "generate scripted_rng [(''paypal'', 2)] example_statuses [delivered_order] []
     ([0, 0, 0], [5]) =
   Some (Inr ([\<lparr>row_order_id = 7, row_attempt_no = 2, row_payment_date = 1006,
                row_amount_paid = 100, row_payment_method_id = 2,
                row_payment_status_id = 1\<rparr>],
              ([], [])))"
  by code_simp

text \<open>
  Claim C4, amended. For every order, the attempt numbers of its rows are positive and
  strictly increasing in the order of emission. When every configured method has an id in
  the method table (no attempt is skipped) they are exactly \<open>1..m\<close>, \<open>m\<close> the number of
  rows of the order. A skipped attempt consumes its number and leaves a gap.
\<close>

theorem attempt_numbers_increasing:
  fixes R :: "'g rng"
  assumes "map_of st ''paid'' = Some p" and "map_of st ''failed'' = Some f"
    and "mt \<noteq> []" and "distinct (map order_id orders)"
    and "eventually_distinct R \<or> generate R mt st orders [] g \<noteq> None"
  shows "\<exists>all_rows g'. generate R mt st orders [] g = Some (Inr (all_rows, g'))
           \<and> (\<forall>order \<in> set orders.
                 (let rs = filter (\<lambda>r. row_order_id r = order_id order) all_rows
                  in sorted_wrt (<) (map row_attempt_no rs)
                     \<and> (\<forall>r \<in> set rs. 1 \<le> row_attempt_no r)
                     \<and> (all_methods_known mt \<longrightarrow>
                          map row_attempt_no rs = [1..int (length rs)])))"
proof -
  have returns: "generate R mt st orders [] g \<noteq> None"
    using assms(5) generate_returns [where R = R and orders = orders and g = g,
        OF _ assms(1) assms(2) assms(3)] by blast
  from generate_per_order [OF assms(1-4) returns] obtain all_rows g' where
    gen: "generate R mt st orders [] g = Some (Inr (all_rows, g'))"
    and each: "\<forall>order \<in> set orders.
                 order_rows_ok mt p f order
                   (filter (\<lambda>r. row_order_id r = order_id order) all_rows)"
    by blast
  have "\<forall>order \<in> set orders.
          (let rs = filter (\<lambda>r. row_order_id r = order_id order) all_rows
           in sorted_wrt (<) (map row_attempt_no rs)
              \<and> (\<forall>r \<in> set rs. 1 \<le> row_attempt_no r)
              \<and> (all_methods_known mt \<longrightarrow> map row_attempt_no rs = [1..int (length rs)]))"
  proof
    fix order assume o: "order \<in> set orders"
    define rs where "rs = filter (\<lambda>r. row_order_id r = order_id order) all_rows"
    from each o have "order_rows_ok mt p f order rs" by (simp add: rs_def)
    then have "sorted_wrt (<) (map row_attempt_no rs)
        \<and> (\<forall>r \<in> set rs. 1 \<le> row_attempt_no r)
        \<and> (all_methods_known mt \<longrightarrow> map row_attempt_no rs = [1..int (length rs)])"
      by (simp add: order_rows_ok_def)
    then show "let rs = filter (\<lambda>r. row_order_id r = order_id order) all_rows
           in sorted_wrt (<) (map row_attempt_no rs)
              \<and> (\<forall>r \<in> set rs. 1 \<le> row_attempt_no r)
              \<and> (all_methods_known mt \<longrightarrow> map row_attempt_no rs = [1..int (length rs)])"
      by (simp add: rs_def Let_def)
  qed
  with gen show ?thesis by blast
qed

theorem attempt_numbers_increasing_witness:
  "map_of example_statuses ''paid'' = Some 1 \<and> map_of example_statuses ''failed'' = Some 2
   \<and> example_methods \<noteq> []
   \<and> distinct (map order_id [delivered_order, cancelled_order])
   \<and> generate scripted_rng example_methods example_statuses [delivered_order, cancelled_order] []
        ([0.5, 0.99, 0.9, 0.1, 0.9, 0, 0, 0.9], [5, 3, 7]) \<noteq> None
   \<and> all_methods_known example_methods
   \<and> (\<exists>all_rows g'.
        generate scripted_rng example_methods example_statuses [delivered_order, cancelled_order] []
          ([0.5, 0.99, 0.9, 0.1, 0.9, 0, 0, 0.9], [5, 3, 7]) = Some (Inr (all_rows, g'))
        \<and> (\<forall>order \<in> set [delivered_order, cancelled_order].
              (let rs = filter (\<lambda>r. row_order_id r = order_id order) all_rows
               in sorted_wrt (<) (map row_attempt_no rs)
                  \<and> (\<forall>r \<in> set rs. 1 \<le> row_attempt_no r)
                  \<and> (all_methods_known example_methods \<longrightarrow>
                       map row_attempt_no rs = [1..int (length rs)]))))"
proof -
  have h1: "map_of example_statuses ''paid'' = Some 1" by (simp add: example_statuses_def)
  have h2: "map_of example_statuses ''failed'' = Some 2" by (simp add: example_statuses_def)
  have h4: "example_methods \<noteq> []" by (simp add: example_methods_def)
  have h5: "distinct (map order_id [delivered_order, cancelled_order])"
    by (simp add: delivered_order_def cancelled_order_def)
  have "generate scripted_rng example_methods example_statuses [delivered_order, cancelled_order] []
        ([0.5, 0.99, 0.9, 0.1, 0.9, 0, 0, 0.9], [5, 3, 7]) =
      Some (Inr ([\<lparr>row_order_id = 7, row_attempt_no = 1, row_payment_date = 1003,
            row_amount_paid = 0, row_payment_method_id = 4, row_payment_status_id = 2\<rparr>,
         \<lparr>row_order_id = 7, row_attempt_no = 2, row_payment_date = 1005,
            row_amount_paid = 0, row_payment_method_id = 4, row_payment_status_id = 2\<rparr>,
         \<lparr>row_order_id = 7, row_attempt_no = 3, row_payment_date = 1006,
            row_amount_paid = 100, row_payment_method_id = 4, row_payment_status_id = 1\<rparr>,
         \<lparr>row_order_id = 8, row_attempt_no = 1, row_payment_date = 2007,
            row_amount_paid = 0, row_payment_method_id = 1, row_payment_status_id = 2\<rparr>],
        ([], [])))"
    by code_simp
  then have h6: "generate scripted_rng example_methods example_statuses
        [delivered_order, cancelled_order] []
        ([0.5, 0.99, 0.9, 0.1, 0.9, 0, 0, 0.9], [5, 3, 7]) \<noteq> None"
    by simp
  have h7: "all_methods_known example_methods"
    by (simp add: all_methods_known_def example_methods_def PAYMENT_METHOD_CONFIG_def)
  show ?thesis
    by (intro conjI h1 h2 h4 h5 h6 h7 attempt_numbers_increasing [OF h1 h2 h4 h5 disjI2 [OF h6]])
qed

lemma attempt_step_counts_ok:
  assumes "attempt_step mt p f order t s fl" and "counts_ok (method_counts s)"
    and "configured (current_method s)"
  shows "counts_ok (method_counts (flow_state fl)) \<and> configured (current_method (flow_state fl))"
  using assms
  by (cases rule: attempt_step.cases) (auto intro: counts_ok_update)

lemma cap_of_cfg:
  "map_of PAYMENT_METHOD_CONFIG m = Some cfg \<Longrightarrow>
     cap_of m = min (max_attempts cfg) MAX_GLOBAL_ATTEMPTS"
  by (simp add: cap_of_def)

text \<open>
  Claim C5, as stated, fails: the forced successful row of lines 380-403 reuses the
  current method without counting it or checking its cap. Below, \<open>bank_transfer\<close> (cap 2,
  id 4) fails twice and then carries the forced row: three attempts of the order use it.
\<close>

theorem forced_row_exceeds_method_cap:
  "cap_of ''bank_transfer'' = 2
   \<and> map_of example_methods ''bank_transfer'' = Some 4
   \<and> generate scripted_rng example_methods example_statuses [delivered_order] []
        ([0.5, 0.99, 0.9, 0.1, 0.9], [5, 3]) =
      Some (Inr ([\<lparr>row_order_id = 7, row_attempt_no = 1, row_payment_date = 1003,
                   row_amount_paid = 0, row_payment_method_id = 4, row_payment_status_id = 2\<rparr>,
                  \<lparr>row_order_id = 7, row_attempt_no = 2, row_payment_date = 1005,
                   row_amount_paid = 0, row_payment_method_id = 4, row_payment_status_id = 2\<rparr>,
                  \<lparr>row_order_id = 7, row_attempt_no = 3, row_payment_date = 1006,
                   row_amount_paid = 100, row_payment_method_id = 4,
                   row_payment_status_id = 1\<rparr>],
                 ([], [])))"
  by (intro conjI)
     (simp add: cap_of_def PAYMENT_METHOD_CONFIG_def MAX_GLOBAL_ATTEMPTS_def,
      simp add: example_methods_def, code_simp)

text \<open>
  Claim C5, amended. Within the attempt loop the cap holds: the rows of an order are the
  rows of the loop followed by at most one forced row (none for a cancelled order), and
  for every configured method the rows of the loop that carry its id are at most
  \<open>min(max_attempts, MAX_GLOBAL_ATTEMPTS)\<close>, the method ids being distinct. Every iteration
  of the loop keeps each counter between 0 and that cap. The forced row is not counted and
  may use a method that is already at its cap.
\<close>

theorem loop_attempts_within_method_cap:
  fixes R :: "'g rng" and s :: "'g attempt_state"
  assumes "map_of st ''paid'' = Some p" and "map_of st ''failed'' = Some f"
    and "mt \<noteq> []" and "distinct (map order_id orders)"
    and "eventually_distinct R \<or> generate R mt st orders [] g \<noteq> None"
    and "method_ids_distinct mt"
  shows "(\<exists>all_rows g'. generate R mt st orders [] g = Some (Inr (all_rows, g'))
           \<and> (\<forall>order \<in> set orders. \<exists>loop_rows forced.
                 filter (\<lambda>r. row_order_id r = order_id order) all_rows = loop_rows @ forced
                 \<and> length forced \<le> 1 \<and> (order_status order = 5 \<longrightarrow> forced = [])
                 \<and> (\<forall>m cfg i. map_of PAYMENT_METHOD_CONFIG m = Some cfg \<and> map_of mt m = Some i
                       \<longrightarrow> int (length (filter (\<lambda>r. row_payment_method_id r = i) loop_rows))
                             \<le> min (max_attempts cfg) MAX_GLOBAL_ATTEMPTS)))
         \<and> (configured (current_method s) \<and> counts_ok (method_counts s) \<longrightarrow>
               (\<exists>fl. attempt_body R mt st order' t s = Inr fl
                  \<and> counts_ok (method_counts (flow_state fl))
                  \<and> configured (current_method (flow_state fl))))"
proof (rule conjI)
  have returns: "generate R mt st orders [] g \<noteq> None"
    using assms(5) generate_returns [where R = R and orders = orders and g = g,
        OF _ assms(1) assms(2) assms(3)] by blast
  from generate_per_order [OF assms(1-4) returns] obtain all_rows g' where
    gen: "generate R mt st orders [] g = Some (Inr (all_rows, g'))"
    and each: "\<forall>order \<in> set orders.
                 order_rows_ok mt p f order
                   (filter (\<lambda>r. row_order_id r = order_id order) all_rows)"
    by blast
  have "\<forall>order \<in> set orders. \<exists>loop_rows forced.
          filter (\<lambda>r. row_order_id r = order_id order) all_rows = loop_rows @ forced
          \<and> length forced \<le> 1 \<and> (order_status order = 5 \<longrightarrow> forced = [])
          \<and> (\<forall>m cfg i. map_of PAYMENT_METHOD_CONFIG m = Some cfg \<and> map_of mt m = Some i
                \<longrightarrow> int (length (filter (\<lambda>r. row_payment_method_id r = i) loop_rows))
                      \<le> min (max_attempts cfg) MAX_GLOBAL_ATTEMPTS)"
  proof
    fix order assume o: "order \<in> set orders"
    define rs where "rs = filter (\<lambda>r. row_order_id r = order_id order) all_rows"
    from each o have "order_rows_ok mt p f order rs" by (simp add: rs_def)
    with assms(6) obtain loop_rows forced where d:
      "rs = loop_rows @ forced" "length forced \<le> 1" "order_status order = 5 \<longrightarrow> forced = []"
      "\<forall>m i. configured m \<and> map_of mt m = Some i \<longrightarrow>
          int (length (filter (\<lambda>r. row_payment_method_id r = i) loop_rows)) \<le> cap_of m"
      unfolding order_rows_ok_def by blast
    have "\<forall>m cfg i. map_of PAYMENT_METHOD_CONFIG m = Some cfg \<and> map_of mt m = Some i
            \<longrightarrow> int (length (filter (\<lambda>r. row_payment_method_id r = i) loop_rows))
                  \<le> min (max_attempts cfg) MAX_GLOBAL_ATTEMPTS"
    proof (intro allI impI)
      fix m cfg i
      assume a: "map_of PAYMENT_METHOD_CONFIG m = Some cfg \<and> map_of mt m = Some i"
      then have "configured m" using cfg_configured by blast
      with d(4) a have "int (length (filter (\<lambda>r. row_payment_method_id r = i) loop_rows))
          \<le> cap_of m" by blast
      with a show "int (length (filter (\<lambda>r. row_payment_method_id r = i) loop_rows))
          \<le> min (max_attempts cfg) MAX_GLOBAL_ATTEMPTS"
        by (simp add: cap_of_cfg)
    qed
    with d(1,2,3) show "\<exists>loop_rows forced.
          filter (\<lambda>r. row_order_id r = order_id order) all_rows = loop_rows @ forced
          \<and> length forced \<le> 1 \<and> (order_status order = 5 \<longrightarrow> forced = [])
          \<and> (\<forall>m cfg i. map_of PAYMENT_METHOD_CONFIG m = Some cfg \<and> map_of mt m = Some i
                \<longrightarrow> int (length (filter (\<lambda>r. row_payment_method_id r = i) loop_rows))
                      \<le> min (max_attempts cfg) MAX_GLOBAL_ATTEMPTS)"
      unfolding rs_def by blast
  qed
  with gen show "\<exists>all_rows g'. generate R mt st orders [] g = Some (Inr (all_rows, g'))
           \<and> (\<forall>order \<in> set orders. \<exists>loop_rows forced.
                 filter (\<lambda>r. row_order_id r = order_id order) all_rows = loop_rows @ forced
                 \<and> length forced \<le> 1 \<and> (order_status order = 5 \<longrightarrow> forced = [])
                 \<and> (\<forall>m cfg i. map_of PAYMENT_METHOD_CONFIG m = Some cfg \<and> map_of mt m = Some i
                       \<longrightarrow> int (length (filter (\<lambda>r. row_payment_method_id r = i) loop_rows))
                             \<le> min (max_attempts cfg) MAX_GLOBAL_ATTEMPTS))"
    by blast
next
  show "configured (current_method s) \<and> counts_ok (method_counts s) \<longrightarrow>
               (\<exists>fl. attempt_body R mt st order' t s = Inr fl
                  \<and> counts_ok (method_counts (flow_state fl))
                  \<and> configured (current_method (flow_state fl)))"
  proof
    assume a: "configured (current_method s) \<and> counts_ok (method_counts s)"
    then have c: "configured (current_method s)" "counts_ok (method_counts s)" by simp_all
    from attempt_body_step [OF c assms(1,2), of R mt order' t] obtain fl where
      fl: "attempt_body R mt st order' t s = Inr fl" "attempt_step mt p f order' t s fl" by blast
    from attempt_step_counts_ok [OF fl(2) c(2) c(1)] fl(1)
    show "\<exists>fl. attempt_body R mt st order' t s = Inr fl
                  \<and> counts_ok (method_counts (flow_state fl))
                  \<and> configured (current_method (flow_state fl))" by blast
  qed
qed

theorem loop_attempts_within_method_cap_witness:
  "map_of example_statuses ''paid'' = Some 1 \<and> map_of example_statuses ''failed'' = Some 2
   \<and> example_methods \<noteq> []
   \<and> distinct (map order_id [delivered_order, cancelled_order])
   \<and> generate scripted_rng example_methods example_statuses [delivered_order, cancelled_order] []
        ([0.5, 0.99, 0.9, 0.1, 0.9, 0, 0, 0.9], [5, 3, 7]) \<noteq> None
   \<and> method_ids_distinct example_methods
   \<and> configured (current_method (initial_state ''card'' ([0.9 :: real], [] :: int list)))
   \<and> counts_ok (method_counts (initial_state ''card'' ([0.9 :: real], [] :: int list)))
   \<and> (\<exists>all_rows g'.
        generate scripted_rng example_methods example_statuses [delivered_order, cancelled_order] []
          ([0.5, 0.99, 0.9, 0.1, 0.9, 0, 0, 0.9], [5, 3, 7]) = Some (Inr (all_rows, g'))
        \<and> (\<forall>order \<in> set [delivered_order, cancelled_order]. \<exists>loop_rows forced.
              filter (\<lambda>r. row_order_id r = order_id order) all_rows = loop_rows @ forced
              \<and> length forced \<le> 1 \<and> (order_status order = 5 \<longrightarrow> forced = [])
              \<and> (\<forall>m cfg i. map_of PAYMENT_METHOD_CONFIG m = Some cfg
                      \<and> map_of example_methods m = Some i
                    \<longrightarrow> int (length (filter (\<lambda>r. row_payment_method_id r = i) loop_rows))
                          \<le> min (max_attempts cfg) MAX_GLOBAL_ATTEMPTS)))
   \<and> (\<exists>fl. attempt_body scripted_rng example_methods example_statuses delivered_order 1003
              (initial_state ''card'' ([0.9], [])) = Inr fl
          \<and> counts_ok (method_counts (flow_state fl))
          \<and> configured (current_method (flow_state fl)))"
proof -
  have h1: "map_of example_statuses ''paid'' = Some 1" by (simp add: example_statuses_def)
  have h2: "map_of example_statuses ''failed'' = Some 2" by (simp add: example_statuses_def)
  have h4: "example_methods \<noteq> []" by (simp add: example_methods_def)
  have h5: "distinct (map order_id [delivered_order, cancelled_order])"
    by (simp add: delivered_order_def cancelled_order_def)
  have "generate scripted_rng example_methods example_statuses [delivered_order, cancelled_order] []
        ([0.5, 0.99, 0.9, 0.1, 0.9, 0, 0, 0.9], [5, 3, 7]) =
      Some (Inr ([\<lparr>row_order_id = 7, row_attempt_no = 1, row_payment_date = 1003,
            row_amount_paid = 0, row_payment_method_id = 4, row_payment_status_id = 2\<rparr>,
         \<lparr>row_order_id = 7, row_attempt_no = 2, row_payment_date = 1005,
            row_amount_paid = 0, row_payment_method_id = 4, row_payment_status_id = 2\<rparr>,
         \<lparr>row_order_id = 7, row_attempt_no = 3, row_payment_date = 1006,
            row_amount_paid = 100, row_payment_method_id = 4, row_payment_status_id = 1\<rparr>,
         \<lparr>row_order_id = 8, row_attempt_no = 1, row_payment_date = 2007,
            row_amount_paid = 0, row_payment_method_id = 1, row_payment_status_id = 2\<rparr>],
        ([], [])))"
    by code_simp
  then have h6: "generate scripted_rng example_methods example_statuses
        [delivered_order, cancelled_order] []
        ([0.5, 0.99, 0.9, 0.1, 0.9, 0, 0, 0.9], [5, 3, 7]) \<noteq> None"
    by simp
  have h7: "method_ids_distinct example_methods"
    by (simp add: method_ids_distinct_def example_methods_def PAYMENT_METHOD_CONFIG_def
        map_filter_simps)
  have h8: "configured (current_method (initial_state ''card'' ([0.9 :: real], [] :: int list)))"
    by (simp add: configured_def initial_state_def PAYMENT_METHOD_CONFIG_def)
  have h9: "counts_ok (method_counts (initial_state ''card'' ([0.9 :: real], [] :: int list)))"
    using initial_counts_ok by (simp add: initial_state_def)
  note inst = loop_attempts_within_method_cap [OF h1 h2 h4 h5 disjI2 [OF h6] h7,
      of "initial_state ''card'' ([0.9], [])" delivered_order 1003]
  from inst have a: "\<exists>all_rows g'.
        generate scripted_rng example_methods example_statuses [delivered_order, cancelled_order] []
          ([0.5, 0.99, 0.9, 0.1, 0.9, 0, 0, 0.9], [5, 3, 7]) = Some (Inr (all_rows, g'))
        \<and> (\<forall>order \<in> set [delivered_order, cancelled_order]. \<exists>loop_rows forced.
              filter (\<lambda>r. row_order_id r = order_id order) all_rows = loop_rows @ forced
              \<and> length forced \<le> 1 \<and> (order_status order = 5 \<longrightarrow> forced = [])
              \<and> (\<forall>m cfg i. map_of PAYMENT_METHOD_CONFIG m = Some cfg
                      \<and> map_of example_methods m = Some i
                    \<longrightarrow> int (length (filter (\<lambda>r. row_payment_method_id r = i) loop_rows))
                          \<le> min (max_attempts cfg) MAX_GLOBAL_ATTEMPTS))"
    by (rule conjunct1)
  from inst have "configured (current_method (initial_state ''card'' ([0.9 :: real], [] :: int list)))
        \<and> counts_ok (method_counts (initial_state ''card'' ([0.9 :: real], [] :: int list))) \<longrightarrow>
      (\<exists>fl. attempt_body scripted_rng example_methods example_statuses delivered_order 1003
              (initial_state ''card'' ([0.9], [])) = Inr fl
          \<and> counts_ok (method_counts (flow_state fl))
          \<and> configured (current_method (flow_state fl)))"
    by (rule conjunct2)
  with h8 h9 have b: "\<exists>fl. attempt_body scripted_rng example_methods example_statuses
              delivered_order 1003 (initial_state ''card'' ([0.9], [])) = Inr fl
          \<and> counts_ok (method_counts (flow_state fl))
          \<and> configured (current_method (flow_state fl))"
    by (simp only: simp_thms)
  show ?thesis
    by (intro conjI h1 h2 h4 h5 h6 h7 h8 h9 a b)
qed

text \<open>
  Claim C10, as stated, fails in its last part: after a skipped attempt the loop goes on,
  and a later attempt with a method that has an id can succeed. The order then ends with
  that attempt's own paid row (at the attempt's timestamp 1005) and the loop ends paid, so
  no forced row is added. Below the first attempt (card, no id) draws 0.1 < 0.62 and is
  skipped; the second (paypal) succeeds.
\<close>

theorem skipped_success_then_natural_success:
  "generate scripted_rng [(''paypal'', 2)] example_statuses [delivered_order] []
     ([0.5, 0, 0.1, 0.9, 0, 0.1], [5, 3]) =
   Some (Inr ([\<lparr>row_order_id = 7, row_attempt_no = 2, row_payment_date = 1005,
                row_amount_paid = 100, row_payment_method_id = 2,
                row_payment_status_id = 1\<rparr>],
              ([], [])))
   \<and> (case attempt_loop scripted_rng [(''paypal'', 2)] example_statuses delivered_order
             [1003, 1005] (initial_state ''card'' ([0.1, 0.9, 0, 0.1], [])) of
         Inl e \<Rightarrow> False
       | Inr s \<Rightarrow> paid s \<and> attempt_no s = 2 \<and> length (rows s) = 1)"
  by (intro conjI) code_simp+

text \<open>
  Claim C10, amended. The success draw precedes the lookup of the method id. An
  iteration of the attempt loop whose chosen method (the one left by the choice of lines
  325-329 and the cap check of lines 331-342) has no id in the method table goes on to the
  next timestamp, whatever the draw was: the counter of the method and the attempt number
  are advanced, one \<^verbatim>\<open>random()\<close> is consumed, no row is appended and the order is not
  marked paid. A non-cancelled order still ends with a paid row: when its loop ends
  unpaid, the forced row, numbered one past the last attempt, is appended to the rows of
  the loop; when a later attempt succeeds, the rows are those of the loop, ending with the
  paid row of that attempt, and no forced row is added.
\<close>

theorem missing_method_attempt_skipped:
  fixes R :: "'g rng" and s :: "'g attempt_state"
  assumes "map_of st ''paid'' = Some p" and "map_of st ''failed'' = Some f" and "mt \<noteq> []"
  shows "(\<not> paid s \<and> choose_method R s = Inr (m0, s1) \<and> cap_check R m0 s1 = Inr (Some (m, s2))
            \<and> map_of mt m = None \<longrightarrow>
            (\<exists>s'. s' = s2\<lparr>method_counts :=
                            (method_counts s2)(m \<mapsto> dict_get (method_counts s2) m 0 + 1),
                          attempt_no := attempt_no s2 + 1,
                          rng_state := snd (rng_random R (rng_state s2))\<rparr>
               \<and> attempt_body R mt st order t s = Inr (Next s')
               \<and> rows s' = rows s \<and> \<not> paid s' \<and> attempt_no s' = attempt_no s + 1
               \<and> attempt_loop R mt st order (t # ts) s = attempt_loop R mt st order ts s'))
         \<and> (order_status order \<noteq> 5
              \<and> (eventually_distinct R \<or> process_order R mt st order g \<noteq> None) \<longrightarrow>
              (\<exists>tl (sl :: 'g attempt_state) rs g'.
                 order_attempts R mt st order g = Some (Inr (tl, sl))
                 \<and> process_order R mt st order g = Some (Inr (rs, g')) \<and> rs \<noteq> []
                 \<and> row_payment_status_id (last rs) = p
                 \<and> row_amount_paid (last rs) = order_total order
                 \<and> (if paid sl then rs = rows sl
                     else butlast rs = rows sl
                          \<and> row_attempt_no (last rs) = attempt_no sl + 1)))
         \<and> (\<not> paid s \<and> order_status order \<noteq> 5 \<longrightarrow>
              (\<exists>r. force_success mt st order ts s =
                      Inr (s\<lparr>attempt_no := attempt_no s + 1, rows := rows s @ [r]\<rparr>)
                 \<and> row_attempt_no r = attempt_no s + 1 \<and> row_payment_status_id r = p
                 \<and> row_amount_paid r = order_total order))
         \<and> (paid s \<longrightarrow> force_success mt st order ts s = Inr s)"
proof (intro conjI impI)
  assume a: "\<not> paid s \<and> choose_method R s = Inr (m0, s1)
      \<and> cap_check R m0 s1 = Inr (Some (m, s2)) \<and> map_of mt m = None"
  then have np: "\<not> paid s" and ch: "choose_method R s = Inr (m0, s1)"
    and cc: "cap_check R m0 s1 = Inr (Some (m, s2))" and noid: "map_of mt m = None"
    by simp_all
  from cap_check_configured [OF cc] obtain cfg where
    cfg: "map_of PAYMENT_METHOD_CONFIG m = Some cfg"
    using configured_cfg by blast
  define s' where "s' = s2\<lparr>method_counts :=
                            (method_counts s2)(m \<mapsto> dict_get (method_counts s2) m 0 + 1),
                          attempt_no := attempt_no s2 + 1,
                          rng_state := snd (rng_random R (rng_state s2))\<rparr>"
  have ra: "record_attempt R mt st order t m s2 = Inr (Next s')"
    using cfg noid by (simp add: record_attempt_def Let_def s'_def)
  have ab: "attempt_body R mt st order t s = Inr (Next s')"
    using np ch cc ra by (simp add: attempt_body_def)
  have frame: "rows s' = rows s \<and> \<not> paid s' \<and> attempt_no s' = attempt_no s + 1"
    using choose_method_frame [OF ch] cap_check_frame [OF cc] np by (simp add: s'_def)
  have loop: "attempt_loop R mt st order (t # ts) s = attempt_loop R mt st order ts s'"
    using ab by simp
  show "\<exists>s'. s' = s2\<lparr>method_counts :=
                            (method_counts s2)(m \<mapsto> dict_get (method_counts s2) m 0 + 1),
                          attempt_no := attempt_no s2 + 1,
                          rng_state := snd (rng_random R (rng_state s2))\<rparr>
               \<and> attempt_body R mt st order t s = Inr (Next s')
               \<and> rows s' = rows s \<and> \<not> paid s' \<and> attempt_no s' = attempt_no s + 1
               \<and> attempt_loop R mt st order (t # ts) s = attempt_loop R mt st order ts s'"
    using ab frame loop by (intro exI [of _ s']) (simp add: s'_def)
next
  assume a: "order_status order \<noteq> 5
              \<and> (eventually_distinct R \<or> process_order R mt st order g \<noteq> None)"
  then have "process_order R mt st order g \<noteq> None"
    using process_order_returns [of R mt st order g] by blast
  from process_order_forced [OF assms(1,2,3) this] obtain tl and sl :: "'g attempt_state"
    and rs g' where
    oa: "order_attempts R mt st order g = Some (Inr (tl, sl))"
    and po: "process_order R mt st order g = Some (Inr (rs, g'))"
    and ro: "rows_ok p f order sl"
    and sh: "if paid sl \<or> order_status order = 5 then rs = rows sl
             else \<exists>r. rs = rows sl @ [r] \<and> row_attempt_no r = attempt_no sl + 1
                    \<and> paid_row p order r"
    by blast
  have "rs \<noteq> [] \<and> row_payment_status_id (last rs) = p
        \<and> row_amount_paid (last rs) = order_total order
        \<and> (if paid sl then rs = rows sl
            else butlast rs = rows sl \<and> row_attempt_no (last rs) = attempt_no sl + 1)"
  proof (cases "paid sl")
    case True
    with ro obtain fs r where "rows sl = fs @ [r]" "paid_row p order r"
      by (auto simp: rows_ok_def)
    with True sh show ?thesis by (simp add: paid_row_def)
  next
    case False
    with sh a obtain r where "rs = rows sl @ [r]" "row_attempt_no r = attempt_no sl + 1"
      "paid_row p order r" by auto
    with False show ?thesis by (simp add: paid_row_def)
  qed
  with oa po show "\<exists>tl (sl :: 'g attempt_state) rs g'.
                 order_attempts R mt st order g = Some (Inr (tl, sl))
                 \<and> process_order R mt st order g = Some (Inr (rs, g')) \<and> rs \<noteq> []
                 \<and> row_payment_status_id (last rs) = p
                 \<and> row_amount_paid (last rs) = order_total order
                 \<and> (if paid sl then rs = rows sl
                     else butlast rs = rows sl
                          \<and> row_attempt_no (last rs) = attempt_no sl + 1)"
    by (intro exI [of _ tl] exI [of _ sl] exI [of _ rs] exI [of _ g']) simp
next
  assume a: "\<not> paid s \<and> order_status order \<noteq> 5"
  obtain method_id where mid:
    "(case map_of mt (current_method s) of
        Some i \<Rightarrow> Inr i
      | None \<Rightarrow> (case mt of [] \<Rightarrow> Inl StopIteration | (c, i) # rest \<Rightarrow> Inr i)) = Inr method_id"
    using assms(3) by (cases "map_of mt (current_method s)"; cases mt) auto
  define r where "r = \<lparr>row_order_id = order_id order, row_attempt_no = attempt_no s + 1,
       row_payment_date = (if ts \<noteq> [] then last ts + 1 else order_date order + 1),
       row_amount_paid = order_total order,
       row_payment_method_id = method_id, row_payment_status_id = p\<rparr>"
  have "force_success mt st order ts s =
      Inr (s\<lparr>attempt_no := attempt_no s + 1, rows := rows s @ [r]\<rparr>)"
    using a mid assms(1) by (simp add: force_success_def Let_def r_def)
  moreover have "row_attempt_no r = attempt_no s + 1 \<and> row_payment_status_id r = p
                 \<and> row_amount_paid r = order_total order"
    by (simp add: r_def)
  ultimately show "\<exists>r. force_success mt st order ts s =
                      Inr (s\<lparr>attempt_no := attempt_no s + 1, rows := rows s @ [r]\<rparr>)
                 \<and> row_attempt_no r = attempt_no s + 1 \<and> row_payment_status_id r = p
                 \<and> row_amount_paid r = order_total order"
    by blast
next
  assume "paid s"
  then show "force_success mt st order ts s = Inr s" by (simp add: force_success_def)
qed


theorem missing_method_attempt_skipped_witness:
  "map_of example_statuses ''paid'' = Some 1 \<and> map_of example_statuses ''failed'' = Some 2
   \<and> [(''paypal'', 2 :: int)] \<noteq> []
   \<and> \<not> paid (initial_state ''card'' ([0.1 :: real, 0.9, 0, 0.1], [] :: int list))
   \<and> choose_method scripted_rng (initial_state ''card'' ([0.1 :: real, 0.9, 0, 0.1], [] :: int list)) = Inr (''card'', (initial_state ''card'' ([0.1 :: real, 0.9, 0, 0.1], [] :: int list)))
   \<and> cap_check scripted_rng ''card'' (initial_state ''card'' ([0.1 :: real, 0.9, 0, 0.1], [] :: int list)) = Inr (Some (''card'', (initial_state ''card'' ([0.1 :: real, 0.9, 0, 0.1], [] :: int list))))
   \<and> map_of [(''paypal'', 2 :: int)] ''card'' = None
   \<and> (\<exists>cfg. map_of PAYMENT_METHOD_CONFIG ''card'' = Some cfg
          \<and> fst (rng_random scripted_rng (rng_state (initial_state ''card'' ([0.1 :: real, 0.9, 0, 0.1], [] :: int list)))) < success_rate cfg)
   \<and> (\<exists>s'. s' = (initial_state ''card'' ([0.1 :: real, 0.9, 0, 0.1], [] :: int list))\<lparr>method_counts :=
                     (method_counts (initial_state ''card'' ([0.1 :: real, 0.9, 0, 0.1], [] :: int list)))(''card'' \<mapsto> dict_get (method_counts (initial_state ''card'' ([0.1 :: real, 0.9, 0, 0.1], [] :: int list))) ''card'' 0 + 1),
                   attempt_no := attempt_no (initial_state ''card'' ([0.1 :: real, 0.9, 0, 0.1], [] :: int list)) + 1,
                   rng_state := snd (rng_random scripted_rng (rng_state (initial_state ''card'' ([0.1 :: real, 0.9, 0, 0.1], [] :: int list))))\<rparr>
          \<and> attempt_body scripted_rng [(''paypal'', 2)] example_statuses delivered_order 1003 (initial_state ''card'' ([0.1 :: real, 0.9, 0, 0.1], [] :: int list))
              = Inr (Next s')
          \<and> rows s' = rows (initial_state ''card'' ([0.1 :: real, 0.9, 0, 0.1], [] :: int list)) \<and> \<not> paid s' \<and> attempt_no s' = attempt_no (initial_state ''card'' ([0.1 :: real, 0.9, 0, 0.1], [] :: int list)) + 1
          \<and> attempt_loop scripted_rng [(''paypal'', 2)] example_statuses delivered_order
               (1003 # [1005]) (initial_state ''card'' ([0.1 :: real, 0.9, 0, 0.1], [] :: int list)) =
             attempt_loop scripted_rng [(''paypal'', 2)] example_statuses delivered_order
               [1005] s')
   \<and> order_status delivered_order \<noteq> 5
   \<and> process_order scripted_rng [(''paypal'', 2)] example_statuses delivered_order
        ([0.5, 0, 0.1, 0.9, 0, 0.1], [5, 3]) \<noteq> None
   \<and> (\<exists>tl (sl :: (real list \<times> int list) attempt_state) rs g'.
          order_attempts scripted_rng [(''paypal'', 2)] example_statuses delivered_order
            ([0.5, 0, 0.1, 0.9, 0, 0.1], [5, 3]) = Some (Inr (tl, sl))
          \<and> process_order scripted_rng [(''paypal'', 2)] example_statuses delivered_order
              ([0.5, 0, 0.1, 0.9, 0, 0.1], [5, 3]) = Some (Inr (rs, g')) \<and> rs \<noteq> []
          \<and> row_payment_status_id (last rs) = 1
          \<and> row_amount_paid (last rs) = order_total delivered_order
          \<and> (if paid sl then rs = rows sl
              else butlast rs = rows sl \<and> row_attempt_no (last rs) = attempt_no sl + 1))
   \<and> (\<exists>r. force_success [(''paypal'', 2)] example_statuses delivered_order [1005] (initial_state ''card'' ([0.1 :: real, 0.9, 0, 0.1], [] :: int list)) =
             Inr ((initial_state ''card'' ([0.1 :: real, 0.9, 0, 0.1], [] :: int list))\<lparr>attempt_no := attempt_no (initial_state ''card'' ([0.1 :: real, 0.9, 0, 0.1], [] :: int list)) + 1, rows := rows (initial_state ''card'' ([0.1 :: real, 0.9, 0, 0.1], [] :: int list)) @ [r]\<rparr>)
          \<and> row_attempt_no r = attempt_no (initial_state ''card'' ([0.1 :: real, 0.9, 0, 0.1], [] :: int list)) + 1
          \<and> row_payment_status_id r = 1
          \<and> row_amount_paid r = order_total delivered_order)
   \<and> paid ((initial_state ''card'' ([0.1 :: real, 0.9, 0, 0.1], [] :: int list))\<lparr>paid := True\<rparr>)
   \<and> force_success [(''paypal'', 2)] example_statuses delivered_order [1005]
        ((initial_state ''card'' ([0.1 :: real, 0.9, 0, 0.1], [] :: int list))\<lparr>paid := True\<rparr>) = Inr ((initial_state ''card'' ([0.1 :: real, 0.9, 0, 0.1], [] :: int list))\<lparr>paid := True\<rparr>)"
proof -
  define s0 where "s0 = initial_state ''card'' ([0.1 :: real, 0.9, 0, 0.1], [] :: int list)"
  have h1: "map_of example_statuses ''paid'' = Some 1" by (simp add: example_statuses_def)
  have h2: "map_of example_statuses ''failed'' = Some 2" by (simp add: example_statuses_def)
  have h3: "[(''paypal'', 2 :: int)] \<noteq> []" by simp
  have h5: "map_of [(''paypal'', 2 :: int)] ''card'' = None" by simp
  have np: "\<not> paid s0" by (simp add: s0_def initial_state_def)
  have cm: "choose_method scripted_rng s0 = Inr (''card'', s0)"
    by (simp add: choose_method_def s0_def initial_state_def)
  have cc: "cap_check scripted_rng ''card'' s0 = Inr (Some (''card'', s0))"
    by (simp add: cap_check_def s0_def initial_state_def PAYMENT_METHOD_CONFIG_def
        MAX_GLOBAL_ATTEMPTS_def)
  have draw: "\<exists>cfg. map_of PAYMENT_METHOD_CONFIG ''card'' = Some cfg
          \<and> fst (rng_random scripted_rng (rng_state s0)) < success_rate cfg"
    by (simp add: PAYMENT_METHOD_CONFIG_def scripted_rng_def s0_def initial_state_def)
  have h8: "order_status delivered_order \<noteq> 5" by (simp add: delivered_order_def)
  have "process_order scripted_rng [(''paypal'', 2)] example_statuses delivered_order
        ([0.5, 0, 0.1, 0.9, 0, 0.1], [5, 3]) =
      Some (Inr ([\<lparr>row_order_id = 7, row_attempt_no = 2, row_payment_date = 1005,
                row_amount_paid = 100, row_payment_method_id = 2,
                row_payment_status_id = 1\<rparr>], ([], [])))"
    by code_simp
  then have h9: "process_order scripted_rng [(''paypal'', 2)] example_statuses delivered_order
        ([0.5, 0, 0.1, 0.9, 0, 0.1], [5, 3]) \<noteq> None" by simp
  note inst = missing_method_attempt_skipped [OF h1 h2 h3, where R = scripted_rng
      and s = s0 and ?m0.0 = "''card''" and ?s1.0 = s0 and m = "''card''" and ?s2.0 = s0
      and order = delivered_order and t = 1003
      and ts = "[1005]" and g = "([0.5, 0, 0.1, 0.9, 0, 0.1], [5, 3])"]
  note skip = inst [THEN conjunct1, rule_format, OF conjI [OF np conjI [OF cm conjI [OF cc h5]]]]
  note ends = inst [THEN conjunct2, THEN conjunct1, rule_format, OF conjI [OF h8 disjI2 [OF h9]]]
  note forced = inst [THEN conjunct2, THEN conjunct2, THEN conjunct1, rule_format,
      OF conjI [OF np h8]]
  have p1: "paid (s0\<lparr>paid := True\<rparr>)" by simp
  note inst2 = missing_method_attempt_skipped [OF h1 h2 h3, where R = scripted_rng
      and s = "s0\<lparr>paid := True\<rparr>" and order = delivered_order and ts = "[1005]"]
  note natural = inst2 [THEN conjunct2, THEN conjunct2, THEN conjunct2, rule_format, OF p1]
  show ?thesis
    by (intro conjI h1 h2 h3 h5 h8 h9 ends np [unfolded s0_def] cm [unfolded s0_def]
        cc [unfolded s0_def] draw [unfolded s0_def] skip [unfolded s0_def]
        forced [unfolded s0_def] p1 [unfolded s0_def] natural [unfolded s0_def])
qed

text \<open>
  Claim C3. Two independent runs each build their own generator from the seed and read
  their own clock. Every stochastic decision of a run is a draw from that one generator,
  and the rows depend on the generator only through the values the draws return, in the
  order in which they are made: whenever the generators of the two runs return the same
  values draw for draw from their seeded states (a relation between their states holds of
  the seeded states and is kept by every draw), the two runs generate the same rows, or
  raise the same exception, or both do not return, and they hand the same units to
  storage, whatever \<^verbatim>\<open>time.perf_counter()\<close> reads in either run. Two runs with the same
  generator and the same seed are the instance in which the relation is equality; for
  them the last part states the claim once more: the clock readings reach the elapsed time
  of the printed report only.
\<close>

theorem run_rows_deterministic:
  fixes R :: "'g rng" and R' :: "'h rng"
  assumes "same_draws rel R R'" and "rel (rng_seed R seed) (rng_seed R' seed)"
  shows "map_option (map_sum id fst) (generate R mt st orders [] (rng_seed R seed)) =
         map_option (map_sum id fst) (generate R' mt st orders [] (rng_seed R' seed))
         \<and> map_option (map_sum id fst) (run R perf_counter seed mt st orders) =
           map_option (map_sum id fst) (run R' perf_counter' seed mt st orders)
         \<and> map_option (map_sum id fst) (run R perf_counter seed mt st orders) =
           map_option (map_sum id fst) (run R perf_counter' seed mt st orders)"
proof (intro conjI)
  note gen = generate_sim [OF assms, of mt st orders "[]"]
  from gen show rows: "map_option (map_sum id fst) (generate R mt st orders [] (rng_seed R seed)) =
         map_option (map_sum id fst) (generate R' mt st orders [] (rng_seed R' seed))"
    by (rule same_rows)
  show "map_option (map_sum id fst) (run R perf_counter seed mt st orders) =
           map_option (map_sum id fst) (run R' perf_counter' seed mt st orders)"
  proof (cases "generate R mt st orders [] (rng_seed R seed)")
    case None
    with gen have "generate R' mt st orders [] (rng_seed R' seed) = None"
      by (cases "generate R' mt st orders [] (rng_seed R' seed)") simp_all
    with None show ?thesis by (simp add: run_def)
  next
    case (Some res)
    show ?thesis
    proof (cases res)
      case (Inl e)
      with gen Some have "generate R' mt st orders [] (rng_seed R' seed) = Some (Inl e)"
        by (cases "generate R' mt st orders [] (rng_seed R' seed)") (auto elim: rel_sum.cases)
      with Some Inl show ?thesis by (simp add: run_def)
    next
      case (Inr rg)
      obtain all_rows g1 where rg: "rg = (all_rows, g1)" by (cases rg)
      from gen Some Inr rg obtain h1 where
        "generate R' mt st orders [] (rng_seed R' seed) = Some (Inr (all_rows, h1))"
        by (cases "generate R' mt st orders [] (rng_seed R' seed)") (auto elim: rel_sum.cases)
      with Some Inr rg show ?thesis by (simp add: run_def split: prod.splits)
    qed
  qed
  show "map_option (map_sum id fst) (run R perf_counter seed mt st orders) =
           map_option (map_sum id fst) (run R perf_counter' seed mt st orders)"
    by (auto simp: run_def split: option.splits sum.splits prod.splits)
qed

theorem run_rows_deterministic_witness:
  "same_draws (\<lambda>g u. g = ([], [])) scripted_rng fixed_rng
   \<and> rng_seed scripted_rng 42 = ([], [])
   \<and> map_option (map_sum id fst)
        (generate scripted_rng example_methods example_statuses
           [delivered_order, cancelled_order] [] (rng_seed scripted_rng 42)) =
      map_option (map_sum id fst)
        (generate fixed_rng example_methods example_statuses
           [delivered_order, cancelled_order] [] (rng_seed fixed_rng 42))
   \<and> map_option (map_sum id fst)
        (run scripted_rng (10, 12.5) 42 example_methods example_statuses
           [delivered_order, cancelled_order]) =
      map_option (map_sum id fst)
        (run fixed_rng (0, 99) 42 example_methods example_statuses
           [delivered_order, cancelled_order])
   \<and> map_option (map_sum id fst)
        (run scripted_rng (10, 12.5) 42 example_methods example_statuses
           [delivered_order, cancelled_order]) =
      map_option (map_sum id fst)
        (run scripted_rng (0, 99) 42 example_methods example_statuses
           [delivered_order, cancelled_order])
   \<and> run scripted_rng (10, 12.5) 42 example_methods example_statuses
        [delivered_order, cancelled_order] =
      Some (Inr ([[\<lparr>row_order_id = 7, row_attempt_no = 1, row_payment_date = 1001,
                    row_amount_paid = 100, row_payment_method_id = 1,
                    row_payment_status_id = 1\<rparr>,
                   \<lparr>row_order_id = 8, row_attempt_no = 1, row_payment_date = 2001,
                    row_amount_paid = 50, row_payment_method_id = 1,
                    row_payment_status_id = 1\<rparr>]],
                 \<lparr>rep_total = 2, rep_orders = 2, rep_batches = 1, rep_elapsed = 5 / 2\<rparr>))"
proof -
  have h1: "same_draws (\<lambda>g u. g = ([], [])) scripted_rng fixed_rng"
    by (simp add: same_draws_def scripted_rng_def fixed_rng_def)
  have h2: "rng_seed scripted_rng 42 = ([], [])" by (simp add: scripted_rng_def)
  have r: "run scripted_rng (10, 12.5) 42 example_methods example_statuses
        [delivered_order, cancelled_order] =
      Some (Inr ([[\<lparr>row_order_id = 7, row_attempt_no = 1, row_payment_date = 1001,
                    row_amount_paid = 100, row_payment_method_id = 1,
                    row_payment_status_id = 1\<rparr>,
                   \<lparr>row_order_id = 8, row_attempt_no = 1, row_payment_date = 2001,
                    row_amount_paid = 50, row_payment_method_id = 1,
                    row_payment_status_id = 1\<rparr>]],
                 \<lparr>rep_total = 2, rep_orders = 2, rep_batches = 1, rep_elapsed = 5 / 2\<rparr>))"
    by code_simp
  note inst = run_rows_deterministic [where rel = "\<lambda>g u. g = ([], [])", OF h1 h2,
      of example_methods example_statuses "[delivered_order, cancelled_order]"
        "(10, 12.5)" "(0, 99)"]
  show ?thesis
    by (intro conjI h1 h2 r inst [THEN conjunct1] inst [THEN conjunct2, THEN conjunct1]
        inst [THEN conjunct2, THEN conjunct2])
qed

end
